theory Spec2Isabelle
  imports Complex_Main
begin

section \<open>Errors and the fold\<close>

text \<open>
  Both puzzle solutions thread an accumulator through \<^verbatim>\<open>functools.reduce\<close> and raise
  Python exceptions on bad input. An exception is a value of type \<open>error\<close>; a function
  that can raise returns \<open>error + 'a\<close>, with \<open>Inl\<close> for the exception.

  \<^item> \<open>ValueError msg\<close>: a \<^verbatim>\<open>raise ValueError(msg)\<close> written in the repository, with
    its message;
  \<^item> \<open>NotEnoughValues\<close>: the \<^verbatim>\<open>ValueError\<close> of a tuple assignment with too few values;
  \<^item> \<open>InvalidLiteral s\<close>: the \<^verbatim>\<open>ValueError\<close> of \<^verbatim>\<open>int(s)\<close> on text that is no integer;
  \<^item> \<open>OverflowError\<close>: an integer too large for a float (conversion or true division);
  \<^item> \<open>ZeroDivisionError\<close>: true division by zero.
\<close>

datatype error =
    ValueError string
  | NotEnoughValues
  | InvalidLiteral string
  | OverflowError
  | ZeroDivisionError

text \<open>
  \<^verbatim>\<open>reduce(f, xs, init)\<close>: a left fold in input order. An exception raised by \<open>f\<close>
  leaves the fold at once, so no later element is looked at.
\<close>

fun reduce :: "('s \<Rightarrow> 'x \<Rightarrow> error + 's) \<Rightarrow> 'x list \<Rightarrow> 's \<Rightarrow> error + 's" where
  "reduce f [] acc = Inr acc"
| "reduce f (x # xs) acc = (case f acc x of Inl e \<Rightarrow> Inl e | Inr acc' \<Rightarrow> reduce f xs acc')"

text \<open>Sequencing of two steps that may raise: the second runs only if the first returns.\<close>

definition bind :: "error + 'a \<Rightarrow> ('a \<Rightarrow> error + 'b) \<Rightarrow> error + 'b" where
  "bind r f = (case r of Inl e \<Rightarrow> Inl e | Inr v \<Rightarrow> f v)"

section \<open>Day 01: the sonar sweep\<close>

subsection \<open>Python floats, as far as \<^verbatim>\<open>increases\<close> uses them\<close>

text \<open>
  \<^verbatim>\<open>increases\<close> seeds its window with \<^verbatim>\<open>math.inf\<close> and compares
  \<^verbatim>\<open>sum(window) / window_size\<close>, a true division whose result is a float. The
  measurements that \<^verbatim>\<open>main\<close> passes are Python integers
  (\<^verbatim>\<open>int(line.strip())\<close>), which are unbounded, so the model has to say what the
  float operations do with them.

  A float is an IEEE 754 binary64 value: 53 significant bits, exponents from \<open>-1022\<close>
  to \<open>1023\<close>, subnormal numbers below that. A finite float is carried by the rational
  number it denotes. Not-a-number never arises from integers and \<^verbatim>\<open>inf\<close>, and the
  sign of zero is invisible to \<^verbatim>\<open>>\<close>, so neither is modelled.
\<close>

datatype pyfloat = NegInf | Finite rat | PosInf

text \<open>\<^verbatim>\<open>a > b\<close> on floats.\<close>

fun float_gt :: "pyfloat \<Rightarrow> pyfloat \<Rightarrow> bool" where
  "float_gt NegInf b = False"
| "float_gt (Finite x) NegInf = True"
| "float_gt (Finite x) (Finite y) = (y < x)"
| "float_gt (Finite x) PosInf = False"
| "float_gt PosInf PosInf = False"
| "float_gt PosInf b = True"

text \<open>\<^verbatim>\<open>n.bit_length()\<close>: the number of binary digits of \<open>n\<close>, with 0 for 0.\<close>

fun bit_length :: "nat \<Rightarrow> nat" where
  "bit_length n = (if n = 0 then 0 else Suc (bit_length (n div 2)))"

declare bit_length.simps [simp del]

text \<open>
  \<open>floor_log2 x y\<close> is the binary exponent of the quotient \<open>x / y\<close> of two positive
  numbers: the \<open>e\<close> with \<open>2 ^ e \<le> x / y < 2 ^ (e + 1)\<close>. The difference of the bit lengths is
  \<open>e\<close> or \<open>e + 1\<close>; one comparison decides.
\<close>

definition floor_log2 :: "nat \<Rightarrow> nat \<Rightarrow> int" where
  "floor_log2 x y =
     (let d = int (bit_length x) - int (bit_length y)
      in if (if 0 \<le> d then y * 2 ^ nat d \<le> x else y \<le> x * 2 ^ nat (- d)) then d else d - 1)"

text \<open>\<open>x / y\<close> rounded to the nearest integer, a tie going to the even neighbour.\<close>

definition round_half_even :: "nat \<Rightarrow> nat \<Rightarrow> nat" where
  "round_half_even x y =
     (let n = x div y; r = x mod y
      in if 2 * r < y then n
         else if y < 2 * r then n + 1
         else if even n then n else n + 1)"

text \<open>
  The quotient \<open>a / b\<close> of two integers (\<open>b\<close> positive) as a float. Python rounds the
  exact quotient once, to the nearest float, ties to even: with \<open>e\<close> the binary
  exponent of the quotient, the result is a multiple \<open>m * 2 ^ p\<close> of the unit in the last
  place \<open>2 ^ p\<close>, where \<open>p = max e (-1022) - 52\<close>. A result of \<open>2 ^ 1024\<close> or more is no
  float: Python raises \<^verbatim>\<open>OverflowError\<close>.
\<close>

definition round_to_double :: "int \<Rightarrow> int \<Rightarrow> error + rat" where
  "round_to_double a b =
     (if a = 0 then Inr 0
      else
        let x = nat \<bar>a\<bar>; y = nat b;
            e = floor_log2 x y;
            p = max e (- 1022) - 52;
            m = (if 0 \<le> p then round_half_even x (y * 2 ^ nat p)
                 else round_half_even (x * 2 ^ nat (- p)) y);
            v = (if 0 \<le> p then of_nat (m * 2 ^ nat p) else of_nat m / 2 ^ nat (- p))
        in if 2 ^ 1024 \<le> v then Inl OverflowError else Inr (of_int (sgn a) * v))"

text \<open>
  The conversion of an integer to a float, which Python applies to the integer operand
  of a mixed operation; it raises \<^verbatim>\<open>OverflowError\<close> ("int too large to convert to
  float") where the rounded value would not be finite.
\<close>

definition float_of_int :: "int \<Rightarrow> error + rat" where
  "float_of_int v = round_to_double v 1"

subsection \<open>The window and its sums\<close>

text \<open>
  A window holds the sentinel \<^verbatim>\<open>inf\<close> or integer measurements. \<^verbatim>\<open>sum\<close> adds
  from the integer 0, left to right: integers add exactly; once \<^verbatim>\<open>inf\<close> has been
  met the running total is the float \<^verbatim>\<open>inf\<close>, and each further integer is converted
  to a float before it is added.
\<close>

datatype number = PyInf | PyInt int

fun py_add :: "number \<Rightarrow> number \<Rightarrow> error + number" where
  "py_add (PyInt a) (PyInt b) = Inr (PyInt (a + b))"
| "py_add (PyInt a) PyInf = (case float_of_int a of Inl e \<Rightarrow> Inl e | Inr _ \<Rightarrow> Inr PyInf)"
| "py_add PyInf (PyInt b) = (case float_of_int b of Inl e \<Rightarrow> Inl e | Inr _ \<Rightarrow> Inr PyInf)"
| "py_add PyInf PyInf = Inr PyInf"

definition py_sum :: "number list \<Rightarrow> error + number" where
  "py_sum xs = reduce py_add xs (PyInt 0)"

text \<open>
  \<^verbatim>\<open>total / window_size\<close>. An integer total is divided exactly and rounded once; the
  total \<^verbatim>\<open>inf\<close> has the divisor converted to a float first.
\<close>

fun py_truediv :: "number \<Rightarrow> int \<Rightarrow> error + pyfloat" where
  "py_truediv (PyInt a) w =
     (if w = 0 then Inl ZeroDivisionError
      else case round_to_double (a * sgn w) \<bar>w\<bar> of Inl e \<Rightarrow> Inl e | Inr q \<Rightarrow> Inr (Finite q))"
| "py_truediv PyInf w =
     (case float_of_int w of
        Inl e \<Rightarrow> Inl e
      | Inr _ \<Rightarrow> if w = 0 then Inl ZeroDivisionError else Inr (if 0 < w then PosInf else NegInf))"

subsection \<open>\<^verbatim>\<open>count\<close> and \<^verbatim>\<open>increases\<close>\<close>

text \<open>
  The inner function \<^verbatim>\<open>count\<close>, with the \<^verbatim>\<open>window_size\<close> of the enclosing call
  as its first argument. \<^verbatim>\<open>window[1:]\<close> is \<open>tl\<close> and \<^verbatim>\<open>window[:-1]\<close> is
  \<open>butlast\<close>; both are the empty list on the empty list, as in Python. The trace that
  \<^verbatim>\<open>out\<close> prints when \<^verbatim>\<open>verbose\<close> is set changes no value and is left out.
\<close>

definition count :: "int \<Rightarrow> nat \<times> number list \<Rightarrow> int \<Rightarrow> error + (nat \<times> number list)" where
  "count window_size lastv measurement =
     (case lastv of (increases, window0) \<Rightarrow>
        let window = window0 @ [PyInt measurement] in
        bind (py_sum (tl window)) (\<lambda>s_new.
        bind (py_truediv s_new window_size) (\<lambda>new.
        bind (py_sum (butlast window)) (\<lambda>s_old.
        bind (py_truediv s_old window_size) (\<lambda>old.
          if float_gt new old then Inr (increases + 1, tl window)
          else Inr (increases, tl window))))))"

definition increases :: "int list \<Rightarrow> int \<Rightarrow> error + nat" where
  "increases measurements window_size =
     (if window_size \<le> 0 then Inl (ValueError ''Window size must be greater than zero'')
      else
        case reduce (count window_size) measurements (0, replicate (nat window_size) PyInf) of
          Inl e \<Rightarrow> Inl e
        | Inr (incr, _) \<Rightarrow> Inr incr)"

text \<open>The example report of the puzzle text.\<close>

definition example_report :: "int list" where
  "example_report = [199, 200, 208, 210, 200, 207, 240, 269, 260, 263]"

subsection \<open>What the specification says \<^verbatim>\<open>increases\<close> computes\<close>

text \<open>
  These definitions follow the specification's words, not the code. \<open>window_sum ms w i\<close>
  is the sum of the \<open>w\<close> measurements that end at position \<open>i\<close> (counted from 0).
  \<open>spec_window_increases\<close> counts the positions whose window has a predecessor window
  and a strictly larger sum than it; comparing sums and comparing exact averages is the
  same thing, the window size being constant. \<open>spec_pairwise_increases\<close> counts the
  measurements that are strictly greater than the one before.
\<close>

definition window_sum :: "int list \<Rightarrow> nat \<Rightarrow> nat \<Rightarrow> int" where
  "window_sum ms w i = sum_list (take w (drop (Suc i - w) ms))"

definition spec_window_increases :: "int list \<Rightarrow> nat \<Rightarrow> nat" where
  "spec_window_increases ms w =
     length (filter (\<lambda>i. window_sum ms w (i - 1) < window_sum ms w i) [w..<length ms])"

definition spec_pairwise_increases :: "int list \<Rightarrow> nat" where
  "spec_pairwise_increases ms = length (filter (\<lambda>i. ms ! (i - 1) < ms ! i) [1..<length ms])"

section \<open>Day 02: piloting instructions\<close>

subsection \<open>Text: \<^verbatim>\<open>str.split(" ", 1)\<close> and \<^verbatim>\<open>int(str)\<close>\<close>

text \<open>
  Strings are lists of 8-bit characters, which covers ASCII input; Unicode digits and
  Unicode white space, which \<^verbatim>\<open>int\<close> also accepts, are outside this model, and so is
  the interpreter's configurable limit on the number of digits.

  \<open>split_space\<close> is \<^verbatim>\<open>s.split(" ", 1)\<close>: the text is cut at its first space
  character only; without a space the result is the one-element list \<open>[s]\<close>.
\<close>

definition split_space :: "string \<Rightarrow> string list" where
  "split_space s =
     (case dropWhile (\<lambda>c. c \<noteq> CHR '' '') s of
        [] \<Rightarrow> [s]
      | _ # rest \<Rightarrow> [takeWhile (\<lambda>c. c \<noteq> CHR '' '') s, rest])"

text \<open>
  The ASCII white space that \<^verbatim>\<open>int\<close> skips around a literal: tab, line feed,
  vertical tab, form feed, carriage return and space.
\<close>

definition is_space :: "char \<Rightarrow> bool" where
  "is_space c \<longleftrightarrow> (let n = (of_char c :: nat) in (9 \<le> n \<and> n \<le> 13) \<or> n = 32)"

definition strip :: "string \<Rightarrow> string" where
  "strip s = rev (dropWhile is_space (rev (dropWhile is_space s)))"

definition is_digit :: "char \<Rightarrow> bool" where
  "is_digit c \<longleftrightarrow> (let n = (of_char c :: nat) in 48 \<le> n \<and> n \<le> 57)"

definition digit_val :: "char \<Rightarrow> nat" where
  "digit_val c = of_char c - 48"

text \<open>
  The digits of a base-10 literal, most significant first. A single underscore may
  stand between two digits (\<^verbatim>\<open>1_000\<close>) and nowhere else.
\<close>

fun int_digits :: "nat \<Rightarrow> string \<Rightarrow> nat option" where
  "int_digits acc [] = Some acc"
| "int_digits acc [c] = (if is_digit c then Some (10 * acc + digit_val c) else None)"
| "int_digits acc (c # d # cs) =
     (if is_digit c then int_digits (10 * acc + digit_val c) (d # cs)
      else if c = CHR ''_'' \<and> is_digit d then int_digits acc (d # cs)
      else None)"

definition int_magnitude :: "string \<Rightarrow> nat option" where
  "int_magnitude s =
     (case s of [] \<Rightarrow> None | c # _ \<Rightarrow> if is_digit c then int_digits 0 s else None)"

text \<open>
  \<^verbatim>\<open>int(s)\<close>: surrounding white space is dropped, then an optional sign, then the
  digits. Anything else raises.
\<close>

definition py_int :: "string \<Rightarrow> error + int" where
  "py_int s =
     (let t = strip s;
          r = (case t of
                 [] \<Rightarrow> None
               | c # cs \<Rightarrow>
                   if c = CHR ''-'' then map_option (\<lambda>n. - int n) (int_magnitude cs)
                   else if c = CHR ''+'' then map_option int (int_magnitude cs)
                   else map_option int (int_magnitude t))
      in case r of None \<Rightarrow> Inl (InvalidLiteral s) | Some v \<Rightarrow> Inr v)"

subsection \<open>The instruction interpreter and the two transition functions\<close>

definition MOVE_UP :: string where
  "MOVE_UP = ''up''"

definition MOVE_DOWN :: string where
  "MOVE_DOWN = ''down''"

definition MOVE_FORWARD :: string where
  "MOVE_FORWARD = ''forward''"

text \<open>
  The source's \<^verbatim>\<open>interpret\<close> (the name is an Isar keyword, hence the suffix):
  \<^verbatim>\<open>action, units = instruction.split(" ", 1); units = int(units)\<close>.
  The tuple assignment needs exactly two parts.
\<close>

definition interpret_instruction :: "string \<Rightarrow> error + (string \<times> int)" where
  "interpret_instruction instruction =
     (case split_space instruction of
        [action, units] \<Rightarrow>
          (case py_int units of Inl e \<Rightarrow> Inl e | Inr n \<Rightarrow> Inr (action, n))
      | _ \<Rightarrow> Inl NotEnoughValues)"

definition process_simple :: "int \<times> int \<Rightarrow> string \<Rightarrow> error + (int \<times> int)" where
  "process_simple lastv instruction =
     (case lastv of (horiz, depth) \<Rightarrow>
        (case interpret_instruction instruction of
           Inl e \<Rightarrow> Inl e
         | Inr (action, units) \<Rightarrow>
             if action = MOVE_UP then Inr (horiz, depth - units)
             else if action = MOVE_DOWN then Inr (horiz, depth + units)
             else if action = MOVE_FORWARD then Inr (horiz + units, depth)
             else Inl (ValueError (''Unknown pilot command: '' @ action))))"

definition process_advanced :: "int \<times> int \<times> int \<Rightarrow> string \<Rightarrow> error + (int \<times> int \<times> int)" where
  "process_advanced lastv instruction =
     (case lastv of (horiz, depth, aim) \<Rightarrow>
        (case interpret_instruction instruction of
           Inl e \<Rightarrow> Inl e
         | Inr (action, units) \<Rightarrow>
             if action = MOVE_UP then Inr (horiz, depth, aim - units)
             else if action = MOVE_DOWN then Inr (horiz, depth, aim + units)
             else if action = MOVE_FORWARD then Inr (horiz + units, depth + units * aim, aim)
             else Inl (ValueError (''Unknown pilot command: '' @ action))))"

definition pilot :: "string list \<Rightarrow> bool \<Rightarrow> error + int" where
  "pilot instructions advanced =
     (if advanced then
        (case reduce process_advanced instructions (0, 0, 0) of
           Inl e \<Rightarrow> Inl e
         | Inr (horiz, depth, _) \<Rightarrow> Inr (horiz * depth))
      else
        (case reduce process_simple instructions (0, 0) of
           Inl e \<Rightarrow> Inl e
         | Inr (horiz, depth) \<Rightarrow> Inr (horiz * depth)))"

subsection \<open>The input format as text\<close>

text \<open>
  To state what the interpreter does on well-formed records, integers are written the
  way \<^verbatim>\<open>str(int)\<close> prints them: decimal digits, most significant first, with a
  leading minus sign for a negative number.
\<close>

definition digit_char :: "nat \<Rightarrow> char" where
  "digit_char d = ''0123456789'' ! d"

fun digits_of :: "nat \<Rightarrow> string" where
  "digits_of n =
     (if n < 10 then [digit_char n] else digits_of (n div 10) @ [digit_char (n mod 10)])"

declare digits_of.simps [simp del]

definition py_str :: "int \<Rightarrow> string" where
  "py_str k = (if k < 0 then CHR ''-'' # digits_of (nat (- k)) else digits_of (nat k))"

text \<open>
  A record \<^verbatim>\<open><token> <units>\<close>: the token, one space, the integer. The direction
  token of any line is its text before the first space.
\<close>

definition instruction_line :: "string \<Rightarrow> int \<Rightarrow> string" where
  "instruction_line token units = token @ '' '' @ py_str units"

definition direction_token :: "string \<Rightarrow> string" where
  "direction_token line = takeWhile (\<lambda>c. c \<noteq> CHR '' '') line"

definition directions :: "string set" where
  "directions = {MOVE_UP, MOVE_DOWN, MOVE_FORWARD}"

text \<open>What simple mode can see of an advanced-mode state: horizontal and aim.\<close>

definition simple_view :: "int \<times> int \<times> int \<Rightarrow> int \<times> int" where
  "simple_view s = (case s of (horiz, depth, aim) \<Rightarrow> (horiz, aim))"

text \<open>The example course of the puzzle text.\<close>

definition example_course :: "string list" where
  "example_course =
     [''forward 5'', ''down 5'', ''forward 8'', ''up 3'', ''down 8'', ''forward 2'']"

section \<open>Day 02: results\<close>

lemma interpret_examples:
  "interpret_instruction ''forward 5'' = Inr (''forward'', 5)"
  "interpret_instruction ''down 5'' = Inr (''down'', 5)"
  "interpret_instruction ''forward 8'' = Inr (''forward'', 8)"
  "interpret_instruction ''up 3'' = Inr (''up'', 3)"
  "interpret_instruction ''down 8'' = Inr (''down'', 8)"
  "interpret_instruction ''forward 2'' = Inr (''forward'', 2)"
  by (simp_all add: interpret_instruction_def split_space_def py_int_def strip_def is_space_def
      int_magnitude_def is_digit_def digit_val_def)

subsection \<open>Reading back what \<open>py_str\<close> writes\<close>

lemma digit_char_props:
  assumes "d < 10"
  shows "is_digit (digit_char d) \<and> digit_val (digit_char d) = d"
proof -
  have "d \<in> {0, 1, 2, 3, 4, 5, 6, 7, 8, 9}"
    using assms by auto
  then show ?thesis
    by (auto simp: is_digit_def digit_val_def digit_char_def)
qed

lemma digits_of_digits: "list_all is_digit (digits_of n) \<and> digits_of n \<noteq> []"
  by (induction n rule: digits_of.induct) (subst digits_of.simps, simp add: digit_char_props)+

lemma int_digits_all:
  "list_all is_digit ds \<Longrightarrow> int_digits acc ds = Some (foldl (\<lambda>a c. 10 * a + digit_val c) acc ds)"
  by (induction acc ds rule: int_digits.induct) auto

lemma foldl_digits_of: "foldl (\<lambda>a c. 10 * a + digit_val c) 0 (digits_of n) = n"
  by (induction n rule: digits_of.induct) (subst digits_of.simps, simp add: digit_char_props)

lemma int_magnitude_digits_of: "int_magnitude (digits_of n) = Some n"
proof -
  obtain c cs where eq: "digits_of n = c # cs"
    using digits_of_digits [of n] by (cases "digits_of n") auto
  have "is_digit c"
    using digits_of_digits [of n] by (simp add: eq)
  moreover have "int_digits 0 (digits_of n) = Some n"
    using digits_of_digits [of n] by (simp add: int_digits_all foldl_digits_of)
  ultimately show ?thesis
    by (simp add: int_magnitude_def eq)
qed

lemma digit_not_space: "is_digit c \<Longrightarrow> \<not> is_space c \<and> c \<noteq> CHR ''-'' \<and> c \<noteq> CHR ''+'' \<and> c \<noteq> CHR '' ''"
  by (auto simp: is_digit_def is_space_def Let_def)

lemma strip_padded:
  assumes "list_all is_space sp" "s \<noteq> []" "\<not> is_space (hd s)" "\<not> is_space (last s)"
  shows "strip (sp @ s) = s"
proof -
  have "dropWhile is_space (sp @ s) = s"
    using assms by (cases s) (simp_all add: dropWhile_append3 list_all_iff)
  moreover have "dropWhile is_space (rev s) = rev s"
    using assms by (cases "rev s") (auto simp: hd_rev)
  ultimately show ?thesis
    by (simp add: strip_def)
qed

lemma py_int_digits_of:
  assumes "list_all is_space sp"
  shows "py_int (sp @ digits_of n) = Inr (int n)"
proof -
  obtain c cs where eq: "digits_of n = c # cs"
    using digits_of_digits [of n] by (cases "digits_of n") auto
  have all: "list_all is_digit (c # cs)"
    using digits_of_digits [of n] by (simp add: eq)
  then have c: "is_digit c" by simp
  have "is_digit (last (c # cs))"
    using all by (metis last_in_set list.distinct(1) list_all_iff)
  then have "strip (sp @ digits_of n) = digits_of n"
    using assms c by (simp add: eq strip_padded digit_not_space del: last.simps)
  then show ?thesis
    using c int_magnitude_digits_of [of n] by (simp add: py_int_def eq digit_not_space)
qed

lemma py_int_py_str: "py_int (py_str k) = Inr k"
proof (cases "k < 0")
  case False
  then show ?thesis
    using py_int_digits_of [of "[]" "nat k"] by (simp add: py_str_def)
next
  case True
  obtain c cs where eq: "digits_of (nat (- k)) = c # cs"
    using digits_of_digits [of "nat (- k)"] by (cases "digits_of (nat (- k))") auto
  have all: "list_all is_digit (c # cs)"
    using digits_of_digits [of "nat (- k)"] by (simp add: eq)
  have "is_digit (last (c # cs))"
    using all by (metis last_in_set list.distinct(1) list_all_iff)
  then have "\<not> is_space (last (CHR ''-'' # c # cs))"
    by (simp add: digit_not_space)
  moreover have "\<not> is_space (CHR ''-'')"
    by (simp add: is_space_def)
  ultimately have "strip ([] @ CHR ''-'' # c # cs) = CHR ''-'' # c # cs"
    by (intro strip_padded) simp_all
  then show ?thesis
    using True int_magnitude_digits_of [of "nat (- k)"] by (simp add: py_int_def py_str_def eq)
qed

lemma split_space_token:
  "CHR '' '' \<notin> set tok \<Longrightarrow> split_space (tok @ CHR '' '' # rest) = [tok, rest]"
proof -
  assume "CHR '' '' \<notin> set tok"
  then have all: "\<And>x. x \<in> set tok \<Longrightarrow> x \<noteq> CHR '' ''"
    by auto
  have "dropWhile (\<lambda>c. c \<noteq> CHR '' '') (tok @ CHR '' '' # rest) = CHR '' '' # rest"
    using all by simp
  moreover have "takeWhile (\<lambda>c. c \<noteq> CHR '' '') (tok @ CHR '' '' # rest) = tok"
    using all by simp
  ultimately show ?thesis
    by (simp add: split_space_def)
qed

lemma direction_no_space: "d \<in> directions \<Longrightarrow> CHR '' '' \<notin> set d"
  by (auto simp: directions_def MOVE_UP_def MOVE_DOWN_def MOVE_FORWARD_def)

lemma interpret_instruction_line:
  "CHR '' '' \<notin> set tok \<Longrightarrow> interpret_instruction (instruction_line tok k) = Inr (tok, k)"
  by (simp add: interpret_instruction_def instruction_line_def split_space_token py_int_py_str)

subsection \<open>The two folds\<close>

lemma reduce_append:
  "reduce f (xs @ ys) acc = (case reduce f xs acc of Inl e \<Rightarrow> Inl e | Inr acc' \<Rightarrow> reduce f ys acc')"
  by (induction xs arbitrary: acc) (auto split: sum.splits)

lemma process_simple_line:
  "CHR '' '' \<notin> set tok \<Longrightarrow> process_simple (h, d) (instruction_line tok k) =
     (if tok = MOVE_UP then Inr (h, d - k)
      else if tok = MOVE_DOWN then Inr (h, d + k)
      else if tok = MOVE_FORWARD then Inr (h + k, d)
      else Inl (ValueError (''Unknown pilot command: '' @ tok)))"
  by (simp add: process_simple_def interpret_instruction_line)

lemma process_advanced_line:
  "CHR '' '' \<notin> set tok \<Longrightarrow> process_advanced (h, d, a) (instruction_line tok k) =
     (if tok = MOVE_UP then Inr (h, d, a - k)
      else if tok = MOVE_DOWN then Inr (h, d, a + k)
      else if tok = MOVE_FORWARD then Inr (h + k, d + k * a, a)
      else Inl (ValueError (''Unknown pilot command: '' @ tok)))"
  by (simp add: process_advanced_def interpret_instruction_line)

lemma process_advanced_simple:
  "process_advanced (h, d, a) l =
     (case process_simple (h, a) l of
        Inl e \<Rightarrow> Inl e
      | Inr (h', a') \<Rightarrow> Inr (h', d + (h' - h) * a, a'))"
  by (simp add: process_advanced_def process_simple_def split: sum.splits prod.splits)

lemma reduce_advanced_simple:
  "map_sum id simple_view (reduce process_advanced ls (h, d, a)) = reduce process_simple ls (h, a)"
proof (induction ls arbitrary: h d a)
  case Nil
  show ?case by (simp add: simple_view_def)
next
  case (Cons l ls)
  show ?case
  proof (cases "process_simple (h, a) l")
    case (Inl e)
    then show ?thesis by (simp add: process_advanced_simple)
  next
    case (Inr st)
    obtain h' a' where st: "st = (h', a')" by (cases st)
    show ?thesis
      using Cons.IH [of h' "d + (h' - h) * a" a'] by (simp add: process_advanced_simple Inr st)
  qed
qed

lemma reduce_simple_valid:
  assumes "\<forall>l\<in>set ls. \<exists>d k. d \<in> directions \<and> l = instruction_line d k"
  shows "\<exists>st'. reduce process_simple ls st = Inr st'"
  using assms
proof (induction ls arbitrary: st)
  case Nil
  show ?case by simp
next
  case (Cons l ls)
  obtain d k where d: "d \<in> directions" and l: "l = instruction_line d k"
    using Cons.prems by auto
  obtain h dep where st: "st = (h, dep)" by (cases st)
  have "\<exists>st1. process_simple st l = Inr st1"
    using d direction_no_space [OF d]
    by (auto simp: st l process_simple_line directions_def MOVE_UP_def MOVE_DOWN_def
        MOVE_FORWARD_def)
  then obtain st1 where "process_simple st l = Inr st1" ..
  then show ?case
    using Cons.IH [of st1] Cons.prems by simp
qed

lemma reduce_advanced_valid:
  assumes "\<forall>l\<in>set ls. \<exists>d k. d \<in> directions \<and> l = instruction_line d k"
  shows "\<exists>st'. reduce process_advanced ls (h, d, a) = Inr st'"
proof -
  obtain st where "reduce process_simple ls (h, a) = Inr st"
    using reduce_simple_valid [OF assms] by blast
  then have "map_sum id simple_view (reduce process_advanced ls (h, d, a)) = Inr st"
    by (simp add: reduce_advanced_simple)
  then show ?thesis
    by (cases "reduce process_advanced ls (h, d, a)") auto
qed

subsection \<open>The example course\<close>

text \<open>
  Claim C2. On the example course of the puzzle text, folding the six instructions in
  input order from the all-zero state, simple mode ends at horizontal 15 and depth 10 and
  \<^verbatim>\<open>pilot\<close> returns 150; advanced mode ends at horizontal 15, depth 60 (and aim 10)
  and \<^verbatim>\<open>pilot\<close> returns 900.
\<close>

theorem pilot_example:
  "reduce process_simple example_course (0, 0) = Inr (15, 10) \<and>
   pilot example_course False = Inr 150 \<and>
   reduce process_advanced example_course (0, 0, 0) = Inr (15, 60, 10) \<and>
   pilot example_course True = Inr 900"
  by (simp add: pilot_def example_course_def process_simple_def process_advanced_def
      interpret_examples MOVE_UP_def MOVE_DOWN_def MOVE_FORWARD_def)

subsection \<open>Simple mode inside advanced mode\<close>

text \<open>
  Claim C9. After any number \<open>n\<close> of instructions, the advanced-mode fold and the
  simple-mode fold agree: the advanced horizontal is the simple horizontal and the
  advanced aim is the simple depth. The two folds also fail on the same instruction
  with the same error, so the relation needs no assumption on the input.
\<close>

theorem simple_advanced_step_by_step:
  "map_sum id simple_view (reduce process_advanced (take n instructions) (0, 0, 0)) =
     reduce process_simple (take n instructions) (0, 0)"
  by (rule reduce_advanced_simple)

subsection \<open>Unrecognised directions\<close>

lemma direction_token_no_space: "CHR '' '' \<notin> set (direction_token l)"
  by (auto simp: direction_token_def dest: set_takeWhileD)

lemma interpret_instruction_token:
  "interpret_instruction l = Inr (action, units) \<Longrightarrow> action = direction_token l"
  by (auto simp: interpret_instruction_def split_space_def direction_token_def
      split: list.splits sum.splits)

lemma process_simple_token:
  assumes "process_simple st l = Inr st'"
  shows "direction_token l \<in> directions"
proof -
  obtain action units where i: "interpret_instruction l = Inr (action, units)"
    using assms by (auto simp: process_simple_def split: prod.splits sum.splits)
  then have "action \<in> directions"
    using assms by (auto simp: process_simple_def directions_def split: prod.splits if_splits)
  then show ?thesis
    using interpret_instruction_token [OF i] by simp
qed

lemma reduce_Inr_step:
  "reduce f ls acc = Inr r \<Longrightarrow> l \<in> set ls \<Longrightarrow> \<exists>s s'. f s l = Inr s'"
proof (induction ls arbitrary: acc)
  case Nil
  then show ?case by simp
next
  case (Cons x xs)
  then obtain acc' where step: "f acc x = Inr acc'" and rest: "reduce f xs acc' = Inr r"
    by (auto split: sum.splits)
  show ?case
  proof (cases "l = x")
    case True
    then show ?thesis using step by blast
  next
    case False
    then show ?thesis using Cons.IH [OF rest] Cons.prems(2) by simp
  qed
qed

lemma pilot_fails_on_unknown_token:
  assumes "l \<in> set ls" and "direction_token l \<notin> directions"
  shows "\<exists>e. pilot ls advanced = Inl e"
proof -
  have simple: "\<exists>e. reduce process_simple ls (0, 0) = Inl e"
  proof (cases "reduce process_simple ls (0, 0)")
    case (Inl e)
    then show ?thesis by blast
  next
    case (Inr r)
    then show ?thesis
      using reduce_Inr_step [OF Inr assms(1)] process_simple_token assms(2) by blast
  qed
  then obtain e where e: "reduce process_simple ls (0, 0) = Inl e" ..
  then have "map_sum id simple_view (reduce process_advanced ls (0, 0, 0)) = Inl e"
    by (simp add: reduce_advanced_simple)
  then have "reduce process_advanced ls (0, 0, 0) = Inl e"
    by (cases "reduce process_advanced ls (0, 0, 0)") auto
  then show ?thesis
    using e by (simp add: pilot_def)
qed

lemma pilot_names_unknown_token:
  assumes "tok \<notin> directions" and "CHR '' '' \<notin> set tok"
    and "\<forall>l\<in>set pre. \<exists>d k. d \<in> directions \<and> l = instruction_line d k"
  shows "pilot (pre @ instruction_line tok k # post) advanced =
           Inl (ValueError (''Unknown pilot command: '' @ tok))"
proof (cases advanced)
  case False
  obtain h d where "reduce process_simple pre (0, 0) = Inr (h, d)"
    using reduce_simple_valid [OF assms(3), of "(0, 0)"] by auto
  then show ?thesis
    using assms(1,2) False
    by (simp add: pilot_def reduce_append process_simple_line directions_def)
next
  case True
  obtain h d a where "reduce process_advanced pre (0, 0, 0) = Inr (h, d, a)"
    using reduce_advanced_valid [OF assms(3), of 0 0 0] by (metis prod_cases3)
  then show ?thesis
    using assms(1,2) True
    by (simp add: pilot_def reduce_append process_advanced_line directions_def)
qed

lemma instruction_line_examples:
  "instruction_line ''forward'' 5 = ''forward 5''"
  "instruction_line ''forward'' 2 = ''forward 2''"
  "instruction_line ''left'' 3 = ''left 3''"
  "instruction_line ''down'' (- 3) = ''down -3''"
  by (simp_all add: instruction_line_def py_str_def digits_of.simps digit_char_def)

text \<open>
  Claim C4. Let \<open>bad\<close> be a line whose direction token is none of \<^verbatim>\<open>up\<close>,
  \<^verbatim>\<open>down\<close> and \<^verbatim>\<open>forward\<close>. Then \<^verbatim>\<open>pilot\<close> fails on every sequence that
  contains it, in both modes. If moreover the records before it are well-formed
  instructions and \<open>bad\<close> itself has the shape \<^verbatim>\<open><token> <integer>\<close>, the fold
  stops at \<open>bad\<close> with \<^verbatim>\<open>ValueError("Unknown pilot command: <token>")\<close>, whatever
  follows.
\<close>

theorem pilot_unknown_direction:
  assumes "direction_token bad \<notin> directions"
  shows "(\<exists>e. pilot (pre @ bad # post) advanced = Inl e) \<and>
    ((\<forall>l\<in>set pre. \<exists>d k. d \<in> directions \<and> l = instruction_line d k) \<longrightarrow>
     (\<exists>k. bad = instruction_line (direction_token bad) k) \<longrightarrow>
       pilot (pre @ bad # post) advanced =
         Inl (ValueError (''Unknown pilot command: '' @ direction_token bad)))"
proof (intro conjI impI)
  show "\<exists>e. pilot (pre @ bad # post) advanced = Inl e"
    using pilot_fails_on_unknown_token [of bad "pre @ bad # post"] assms by simp
next
  assume pre: "\<forall>l\<in>set pre. \<exists>d k. d \<in> directions \<and> l = instruction_line d k"
  assume "\<exists>k. bad = instruction_line (direction_token bad) k"
  then obtain k where "bad = instruction_line (direction_token bad) k" ..
  then show "pilot (pre @ bad # post) advanced =
      Inl (ValueError (''Unknown pilot command: '' @ direction_token bad))"
    using pilot_names_unknown_token [OF assms direction_token_no_space pre, of k post advanced]
    by simp
qed

theorem pilot_unknown_direction_witness:
  "direction_token ''left 3'' \<notin> directions \<and>
   pilot [''forward 5'', ''left 3'', ''up x''] False = Inl (ValueError ''Unknown pilot command: left'') \<and>
   pilot [''forward 5'', ''left 3'', ''up x''] True = Inl (ValueError ''Unknown pilot command: left'')"
proof -
  have tok: "direction_token ''left 3'' = ''left''"
    by (simp add: direction_token_def)
  have bad: "direction_token ''left 3'' \<notin> directions"
    by (simp add: tok directions_def MOVE_UP_def MOVE_DOWN_def MOVE_FORWARD_def)
  have "''forward'' \<in> directions"
    by (simp add: directions_def MOVE_FORWARD_def)
  then have pre: "\<forall>l\<in>set [''forward 5'']. \<exists>d k. d \<in> directions \<and> l = instruction_line d k"
    using instruction_line_examples(1) by (metis empty_iff empty_set set_ConsD)
  have shape: "\<exists>k. ''left 3'' = instruction_line (direction_token ''left 3'') k"
    using instruction_line_examples(3) by (metis tok)
  show ?thesis
    using pilot_unknown_direction [OF bad, of "[''forward 5'']" "[''up x'']"] pre shape bad
    by (simp add: tok)
qed

subsection \<open>What separates the direction from the magnitude\<close>

text \<open>
  Claim C6, amended. For every direction token among \<^verbatim>\<open>up\<close>, \<^verbatim>\<open>down\<close>,
  \<^verbatim>\<open>forward\<close> and every non-negative integer magnitude, the line made of the token,
  one space character, any further white space and the magnitude in decimal is parsed
  into the pair of the token and the magnitude. The separator has to begin with a space
  character: the line is cut at its first space and nowhere else.
\<close>

theorem interpret_space_separated:
  assumes "d \<in> directions" and "list_all is_space sp"
  shows "interpret_instruction (d @ '' '' @ sp @ digits_of n) = Inr (d, int n)"
  using assms
  by (simp add: interpret_instruction_def split_space_token direction_no_space py_int_digits_of)

theorem interpret_space_separated_witness:
  "MOVE_FORWARD \<in> directions \<and> list_all is_space [CHR 0x09, CHR '' ''] \<and>
   interpret_instruction (''forward '' @ [CHR 0x09, CHR '' ''] @ ''15'') = Inr (''forward'', 15)"
proof -
  have d: "MOVE_FORWARD \<in> directions"
    by (simp add: directions_def)
  have sp: "list_all is_space [CHR 0x09, CHR '' '']"
    by (simp add: is_space_def)
  have "digits_of 15 = ''15''"
    by (simp add: digits_of.simps digit_char_def)
  then show ?thesis
    using interpret_space_separated [OF d sp, of 15] d sp by (simp add: MOVE_FORWARD_def)
qed

text \<open>
  As the claim is worded, any white space separates the two fields. A tab does not: the
  line has no space character, the cut yields one part and the tuple assignment raises.
\<close>

theorem interpret_tab_separated:
  "is_space (CHR 0x09) \<and>
   interpret_instruction (MOVE_UP @ [CHR 0x09] @ digits_of 3) = Inl NotEnoughValues"
  by (simp add: is_space_def interpret_instruction_def split_space_def MOVE_UP_def
      digits_of.simps digit_char_def)

subsection \<open>Negative magnitudes\<close>

text \<open>
  Claim C10. The interpreter does not check the sign of the magnitude: for every
  recognised direction token \<open>d\<close> and every integer \<open>k\<close>, negative ones included,
  the line \<^verbatim>\<open>d k\<close> is parsed into the pair \<open>(d, k)\<close>, and \<^verbatim>\<open>pilot\<close> returns a
  result, in either mode, on every sequence of such lines.
\<close>

theorem negative_magnitude_accepted:
  assumes "d \<in> directions"
    and "\<forall>l\<in>set instructions. \<exists>d' k'. d' \<in> directions \<and> l = instruction_line d' k'"
  shows "interpret_instruction (instruction_line d k) = Inr (d, k) \<and>
         (\<exists>r. pilot instructions advanced = Inr r)"
proof
  show "interpret_instruction (instruction_line d k) = Inr (d, k)"
    using assms(1) by (simp add: interpret_instruction_line direction_no_space)
next
  show "\<exists>r. pilot instructions advanced = Inr r"
  proof (cases advanced)
    case False
    obtain h dep where "reduce process_simple instructions (0, 0) = Inr (h, dep)"
      using reduce_simple_valid [OF assms(2), of "(0, 0)"] by auto
    then show ?thesis using False by (simp add: pilot_def)
  next
    case True
    obtain h dep a where "reduce process_advanced instructions (0, 0, 0) = Inr (h, dep, a)"
      using reduce_advanced_valid [OF assms(2), of 0 0 0] by (metis prod_cases3)
    then show ?thesis using True by (simp add: pilot_def)
  qed
qed

theorem negative_magnitude_accepted_witness:
  "MOVE_DOWN \<in> directions \<and>
   interpret_instruction ''down -3'' = Inr (''down'', - 3) \<and>
   (\<exists>r. pilot [''down -3'', ''forward 2''] True = Inr r)"
proof -
  have d: "MOVE_DOWN \<in> directions"
    by (simp add: directions_def)
  have "''forward'' \<in> directions" and "''down'' \<in> directions"
    by (simp_all add: directions_def MOVE_FORWARD_def MOVE_DOWN_def)
  then have all: "\<forall>l\<in>set [''down -3'', ''forward 2''].
      \<exists>d' k'. d' \<in> directions \<and> l = instruction_line d' k'"
    using instruction_line_examples(2,4) by (metis empty_iff empty_set set_ConsD)
  show ?thesis
    using negative_magnitude_accepted [OF d all, of "- 3" True] d
    by (simp add: instruction_line_examples MOVE_DOWN_def)
qed

lemma negative_example_values:
  "pilot [''down -3'', ''forward 2''] False = Inr (- 6)"
  "pilot [''down -3'', ''forward 2''] True = Inr (- 12)"
  by (simp_all add: pilot_def process_simple_def process_advanced_def
      interpret_instruction_def split_space_def py_int_def strip_def is_space_def
      int_magnitude_def is_digit_def digit_val_def MOVE_UP_def MOVE_DOWN_def MOVE_FORWARD_def)

section \<open>Facts about the float operations\<close>

subsection \<open>Bit lengths and binary exponents\<close>

lemma bit_length_pos: "0 < n \<Longrightarrow> 0 < bit_length n"
  by (subst bit_length.simps) simp

lemma bit_length_bounds:
  "0 < n \<Longrightarrow> 2 ^ (bit_length n - 1) \<le> n \<and> n < 2 ^ bit_length n"
proof (induction n rule: bit_length.induct)
  case (1 n)
  show ?case
  proof (cases "n div 2 = 0")
    case True
    then have "n = 1" using "1.prems" by auto
    then show ?thesis
      by (simp add: bit_length.simps)
  next
    case False
    then have pos: "0 < n div 2" by simp
    have bl: "bit_length n = Suc (bit_length (n div 2))"
      using "1.prems" by (subst bit_length.simps) simp
    from "1.IH" [OF _ pos] "1.prems"
    have lo: "2 ^ (bit_length (n div 2) - 1) \<le> n div 2"
      and hi: "n div 2 < 2 ^ bit_length (n div 2)" by auto
    have "(2::nat) ^ bit_length (n div 2) = 2 * 2 ^ (bit_length (n div 2) - 1)"
      using bit_length_pos [OF pos] by (cases "bit_length (n div 2)") simp_all
    then have "2 ^ bit_length (n div 2) \<le> n"
      using lo by linarith
    moreover have "n < 2 * 2 ^ bit_length (n div 2)"
      using hi by linarith
    ultimately show ?thesis
      by (simp add: bl)
  qed
qed

subsection \<open>Rounding is within half a unit in the last place\<close>

lemma round_half_even_error:
  assumes "0 < y"
  shows "\<bar>2 * (int (round_half_even x y) * int y - int x)\<bar> \<le> int y"
proof -
  define n where "n = x div y"
  define r where "r = x mod y"
  have x: "int x = int n * int y + int r"
    by (simp add: n_def r_def flip: of_nat_mult of_nat_add)
  have r: "r < y"
    using assms by (simp add: r_def)
  have rhe: "round_half_even x y =
      (if 2 * r < y then n else if y < 2 * r then n + 1 else if even n then n else n + 1)"
    by (simp add: round_half_even_def n_def r_def Let_def)
  show ?thesis
    using r by (auto simp: rhe x algebra_simps)
qed

lemma bit_length_powi:
  assumes "0 < n"
  shows "(2::rat) powi (int (bit_length n) - 1) \<le> of_nat n"
    and "of_nat n < (2::rat) powi (int (bit_length n))"
proof -
  have pos: "0 < bit_length n"
    using assms by (rule bit_length_pos)
  have "(2::nat) ^ (bit_length n - 1) \<le> n" and "n < (2::nat) ^ bit_length n"
    using bit_length_bounds [OF assms] by blast+
  then have "(of_nat ((2::nat) ^ (bit_length n - 1)) :: rat) \<le> of_nat n"
    and "(of_nat n :: rat) < of_nat ((2::nat) ^ bit_length n)"
    by (simp_all only: of_nat_le_iff of_nat_less_iff)
  then have lo: "(2::rat) ^ (bit_length n - 1) \<le> of_nat n"
    and hi: "(of_nat n :: rat) < 2 ^ bit_length n"
    by (simp_all only: of_nat_power of_nat_numeral)
  have "int (bit_length n) - 1 = int (bit_length n - 1)"
    using pos by linarith
  then have "(2::rat) powi (int (bit_length n) - 1) = 2 ^ (bit_length n - 1)"
    by (simp only: power_int_of_nat)
  then show "(2::rat) powi (int (bit_length n) - 1) \<le> of_nat n"
    using lo by (simp only:)
  show "of_nat n < (2::rat) powi (int (bit_length n))"
    using hi by (simp only: power_int_of_nat)
qed

lemma floor_log2_test:
  "(if 0 \<le> d then y * 2 ^ nat d \<le> x else y \<le> x * 2 ^ nat (- d)) \<longleftrightarrow>
     of_nat y * (2::rat) powi d \<le> of_nat x"
proof (cases "0 \<le> d")
  case True
  have "(of_nat (y * 2 ^ nat d) :: rat) \<le> of_nat x \<longleftrightarrow> y * 2 ^ nat d \<le> x"
    by (simp only: of_nat_le_iff)
  moreover have "(2::rat) powi d = 2 ^ nat d"
    using True by (simp add: power_int_def)
  ultimately show ?thesis
    using True by simp
next
  case False
  have "(of_nat y :: rat) \<le> of_nat (x * 2 ^ nat (- d)) \<longleftrightarrow> y \<le> x * 2 ^ nat (- d)"
    by (simp only: of_nat_le_iff)
  moreover have "(2::rat) powi d = 1 / 2 ^ nat (- d)"
    using False by (simp add: power_int_def power_one_over inverse_eq_divide)
  moreover have "of_nat y * (1 / 2 ^ nat (- d)) \<le> (of_nat x :: rat) \<longleftrightarrow>
      of_nat y \<le> (of_nat x :: rat) * 2 ^ nat (- d)"
    by (simp add: pos_divide_le_eq)
  ultimately show ?thesis
    using False by simp
qed

lemma floor_log2_bounds:
  assumes "0 < x" and "0 < y"
  shows "of_nat y * (2::rat) powi (floor_log2 x y) \<le> of_nat x"
    and "of_nat x < of_nat y * (2::rat) powi (floor_log2 x y + 1)"
proof -
  define d where "d = int (bit_length x) - int (bit_length y)"
  have x: "(2::rat) powi (int (bit_length x) - 1) \<le> of_nat x"
    "of_nat x < (2::rat) powi (int (bit_length x))"
    using bit_length_powi [OF assms(1)] by blast+
  have y: "(2::rat) powi (int (bit_length y) - 1) \<le> of_nat y"
    "of_nat y < (2::rat) powi (int (bit_length y))"
    using bit_length_powi [OF assms(2)] by blast+
  have "int (bit_length x) = (int (bit_length y) - 1) + (d + 1)"
    by (simp add: d_def)
  then have "(2::rat) powi (int (bit_length x)) = 2 powi (int (bit_length y) - 1) * 2 powi (d + 1)"
    by (metis power_int_add zero_neq_numeral)
  moreover have "(2::rat) powi (int (bit_length y) - 1) * 2 powi (d + 1) \<le> of_nat y * 2 powi (d + 1)"
    by (rule mult_right_mono [OF y(1)]) simp
  ultimately have up: "of_nat x < of_nat y * (2::rat) powi (d + 1)"
    using x(2) by linarith
  have "int (bit_length x) - 1 = int (bit_length y) + (d - 1)"
    by (simp add: d_def)
  then have "(2::rat) powi (int (bit_length x) - 1) = 2 powi (int (bit_length y)) * 2 powi (d - 1)"
    by (metis power_int_add zero_neq_numeral)
  moreover have "of_nat y * (2::rat) powi (d - 1) \<le> 2 powi (int (bit_length y)) * 2 powi (d - 1)"
    by (rule mult_right_mono [OF less_imp_le [OF y(2)]]) simp
  ultimately have lo: "of_nat y * (2::rat) powi (d - 1) \<le> of_nat x"
    using x(1) by linarith
  have "floor_log2 x y =
      (if (if 0 \<le> d then y * 2 ^ nat d \<le> x else y \<le> x * 2 ^ nat (- d)) then d else d - 1)"
    by (simp add: floor_log2_def Let_def d_def)
  then have fl: "floor_log2 x y = (if of_nat y * (2::rat) powi d \<le> of_nat x then d else d - 1)"
    by (simp only: floor_log2_test)
  show "of_nat y * (2::rat) powi (floor_log2 x y) \<le> of_nat x"
  proof (cases "of_nat y * (2::rat) powi d \<le> of_nat x")
    case True
    then show ?thesis by (simp only: fl if_True)
  next
    case False
    then show ?thesis using lo by (simp only: fl if_False)
  qed
  show "of_nat x < of_nat y * (2::rat) powi (floor_log2 x y + 1)"
  proof (cases "of_nat y * (2::rat) powi d \<le> of_nat x")
    case True
    then show ?thesis using up by (simp only: fl if_True)
  next
    case False
    then have "of_nat x < of_nat y * (2::rat) powi d" by simp
    moreover have "floor_log2 x y + 1 = d" using False by (simp only: fl if_False)
    ultimately show ?thesis by simp
  qed
qed

lemma round_half_even_near:
  assumes "0 < y"
  shows "\<bar>of_nat (round_half_even x y) - of_nat x / of_nat y\<bar> \<le> (1 / 2 :: rat)"
proof -
  define m where "m = round_half_even x y"
  have "\<bar>2 * (int m * int y - int x)\<bar> \<le> int y"
    unfolding m_def by (rule round_half_even_error [OF assms])
  then have "(of_int \<bar>2 * (int m * int y - int x)\<bar> :: rat) \<le> of_int (int y)"
    by (simp only: of_int_le_iff)
  then have "\<bar>2 * (of_nat m * of_nat y - of_nat x)\<bar> \<le> (of_nat y :: rat)"
    by simp
  moreover have "(of_nat m - of_nat x / of_nat y :: rat) =
      (2 * (of_nat m * of_nat y - of_nat x)) / (2 * of_nat y)"
    using assms by (simp add: field_simps)
  ultimately show ?thesis
    using assms unfolding m_def [symmetric]
    by (simp only: abs_divide) (simp add: field_simps)
qed

lemma round_to_double_unfold:
  assumes "a \<noteq> 0" and "0 < b"
  defines "p \<equiv> max (floor_log2 (nat \<bar>a\<bar>) (nat b)) (- 1022) - 52"
  shows "\<exists>v. round_to_double a b =
             (if 2 ^ 1024 \<le> v then Inl OverflowError else Inr (of_int (sgn a) * v)) \<and>
           \<bar>v - \<bar>of_int a\<bar> / of_int b\<bar> \<le> 2 powi p / 2 \<and> 0 \<le> v"
proof -
  define x where "x = nat \<bar>a\<bar>"
  define y where "y = nat b"
  have xa: "(of_nat x :: rat) = \<bar>of_int a\<bar>" and yb: "(of_nat y :: rat) = of_int b"
    using assms by (simp_all add: x_def y_def)
  have y: "0 < y" using assms by (simp add: y_def)
  define m where "m = (if 0 \<le> p then round_half_even x (y * 2 ^ nat p)
                 else round_half_even (x * 2 ^ nat (- p)) y)"
  define v :: rat where "v = (if 0 \<le> p then of_nat (m * 2 ^ nat p) else of_nat m / 2 ^ nat (- p))"
  have r: "round_to_double a b =
      (if 2 ^ 1024 \<le> v then Inl OverflowError else Inr (of_int (sgn a) * v))"
    unfolding v_def m_def p_def x_def y_def round_to_double_def Let_def
    using assms(1) by (simp only: if_False)
  have near: "\<bar>v - of_nat x / of_nat y\<bar> \<le> 2 powi p / 2"
  proof (cases "0 \<le> p")
    case True
    define k where "k = nat p"
    define d :: rat where "d = of_nat m - of_nat x / of_nat (y * 2 ^ k)"
    have pk: "(2::rat) powi p = 2 ^ k"
      using True by (simp add: k_def power_int_def)
    have "m = round_half_even x (y * 2 ^ k)"
      using True by (simp add: m_def k_def)
    then have d: "\<bar>d\<bar> \<le> 1 / 2"
      unfolding d_def using y round_half_even_near [of "y * 2 ^ k" x] by simp
    have "v = of_nat m * 2 ^ k"
      using True by (simp add: v_def k_def)
    then have "v - of_nat x / of_nat y = d * 2 ^ k"
      using y by (simp add: d_def field_simps)
    then have "\<bar>v - of_nat x / of_nat y\<bar> = \<bar>d\<bar> * 2 ^ k"
      by (simp add: abs_mult)
    also have "\<dots> \<le> 1 / 2 * 2 ^ k"
      by (rule mult_right_mono [OF d]) simp
    finally show ?thesis
      by (simp add: pk)
  next
    case False
    define k where "k = nat (- p)"
    define d :: rat where "d = of_nat m - of_nat (x * 2 ^ k) / of_nat y"
    have pk: "(2::rat) powi p = 1 / 2 ^ k"
      using False by (simp add: k_def power_int_def power_one_over inverse_eq_divide)
    have "m = round_half_even (x * 2 ^ k) y"
      using False by (simp add: m_def k_def)
    then have d: "\<bar>d\<bar> \<le> 1 / 2"
      unfolding d_def using y round_half_even_near [of y "x * 2 ^ k"] by simp
    have "v = of_nat m / 2 ^ k"
      using False by (simp add: v_def k_def)
    then have "v - of_nat x / of_nat y = d / 2 ^ k"
      using y by (simp add: d_def field_simps)
    then have "\<bar>v - of_nat x / of_nat y\<bar> = \<bar>d\<bar> / 2 ^ k"
      by (simp add: abs_divide)
    also have "\<dots> \<le> 1 / 2 / 2 ^ k"
      by (rule divide_right_mono [OF d]) simp
    finally show ?thesis
      by (simp add: pk)
  qed
  have "0 \<le> v"
    by (simp add: v_def)
  with r near show ?thesis
    unfolding xa yb by blast
qed

lemma round_to_double_accurate:
  assumes "a \<noteq> 0" and "0 < b"
    and lo: "(of_int b :: rat) \<le> \<bar>of_int a\<bar> * 2 ^ 1022"
    and hi: "\<bar>of_int a\<bar> < (of_int b :: rat) * 2 ^ 1023"
  shows "\<exists>q. round_to_double a b = Inr q \<and>
           \<bar>q - of_int a / of_int b\<bar> \<le> \<bar>of_int a\<bar> / of_int b / 2 ^ 53"
proof -
  define x where "x = nat \<bar>a\<bar>"
  define y where "y = nat b"
  define e where "e = floor_log2 x y"
  define z :: rat where "z = \<bar>of_int a\<bar> / of_int b"
  have xa: "(of_nat x :: rat) = \<bar>of_int a\<bar>" and yb: "(of_nat y :: rat) = of_int b"
    using assms by (simp_all add: x_def y_def)
  have x: "0 < x" and y: "0 < y"
    using assms by (simp_all add: x_def y_def)
  have bpos: "(0::rat) < of_int b"
    using assms(2) by simp
  have e_lo: "of_int b * (2::rat) powi e \<le> \<bar>of_int a\<bar>"
    and e_hi: "\<bar>of_int a\<bar> < of_int b * (2::rat) powi (e + 1)"
    using floor_log2_bounds [OF x y] by (simp_all add: e_def xa yb)
  have "- 1022 \<le> e"
  proof (rule ccontr)
    assume "\<not> - 1022 \<le> e"
    then have "e + 1 \<le> - 1022" by simp
    then have "(2::rat) powi (e + 1) \<le> 2 powi (- 1022)"
      by (intro power_int_increasing) simp_all
    then have "of_int b * (2::rat) powi (e + 1) \<le> of_int b * 2 powi (- 1022)"
      using bpos by (simp add: mult_left_mono)
    then have "\<bar>of_int a\<bar> < (of_int b :: rat) * 2 powi (- 1022)"
      using e_hi by linarith
    then have "\<bar>of_int a\<bar> * 2 ^ 1022 < (of_int b :: rat)"
      by (simp add: power_int_minus field_simps)
    then show False
      using lo by linarith
  qed
  then have p: "max e (- 1022) - 52 = e - 52"
    by simp
  have "(2::rat) powi e = 2 powi (e - 52) / 2 * 2 ^ 53"
  proof -
    have "e = (e - 52) + 52" by simp
    then have "(2::rat) powi e = 2 powi (e - 52) * 2 powi 52"
      by (metis power_int_add zero_neq_numeral)
    then show ?thesis by simp
  qed
  then have "of_int b * (2 powi (e - 52) / 2 * 2 ^ 53) \<le> \<bar>of_int a :: rat\<bar>"
    using e_lo by simp
  then have ulp: "(2::rat) powi (e - 52) / 2 \<le> z / 2 ^ 53"
    using bpos by (simp add: z_def field_simps)
  obtain v where r: "round_to_double a b =
        (if 2 ^ 1024 \<le> v then Inl OverflowError else Inr (of_int (sgn a) * v))"
      and near: "\<bar>v - z\<bar> \<le> 2 powi (e - 52) / 2" and v: "0 \<le> v"
    using round_to_double_unfold [OF assms(1,2)]
    unfolding x_def [symmetric] y_def [symmetric] e_def [symmetric] p z_def [symmetric]
    by blast
  have err: "\<bar>v - z\<bar> \<le> z / 2 ^ 53"
    using near ulp by linarith
  define M :: rat where "M = 2 ^ 1023"
  have "z < M"
    using hi bpos unfolding M_def z_def by (simp only: pos_divide_less_eq mult.commute)
  moreover have "0 \<le> z"
    using bpos by (simp add: z_def)
  moreover have "z / 2 ^ 53 \<le> z"
    using \<open>0 \<le> z\<close> by (simp add: field_simps)
  ultimately have "v < 2 * M"
    using err by linarith
  moreover have "(2::rat) ^ 1024 = 2 * M"
    unfolding M_def by (simp only: power_Suc [symmetric]) simp
  ultimately have "v < 2 ^ 1024"
    by (simp only:)
  then have res: "round_to_double a b = Inr (of_int (sgn a) * v)"
    using r by (simp only: not_le [symmetric] if_False)
  have "(of_int a :: rat) = of_int (sgn a * \<bar>a\<bar>)"
    by (simp only: mult_sgn_abs)
  then have "(of_int a :: rat) = of_int (sgn a) * \<bar>of_int a\<bar>"
    by (simp only: of_int_mult of_int_abs)
  then have "of_int a / of_int b = of_int (sgn a) * z"
    by (simp add: z_def)
  then have "of_int (sgn a) * v - of_int a / of_int b = of_int (sgn a) * (v - z)"
    by (simp add: algebra_simps)
  moreover have "\<bar>of_int (sgn a) :: rat\<bar> = 1"
  proof -
    have "\<bar>sgn a\<bar> = 1"
      using assms(1) by (simp add: abs_sgn_eq)
    then have "(of_int \<bar>sgn a\<bar> :: rat) = 1"
      by simp
    then show ?thesis
      by (simp only: of_int_abs)
  qed
  ultimately have "\<bar>of_int (sgn a) * v - of_int a / of_int b\<bar> = \<bar>v - z\<bar>"
    by (simp add: abs_mult)
  then have "\<bar>of_int (sgn a) * v - of_int a / of_int b\<bar> \<le> z / 2 ^ 53"
    using err by simp
  then show ?thesis
    using res unfolding z_def by blast
qed

subsection \<open>Quotients of small sums keep their order\<close>

text \<open>
  The relative error of a rounded quotient is at most \<open>2 ^ - 53\<close>. Two integer sums
  below \<open>2 ^ 52\<close> in magnitude that differ, divided by the same window size, differ
  by more than the two errors together: their floats compare as the sums do.
\<close>

lemma round_to_double_small:
  assumes "0 < w" and "w \<le> 2 ^ 1022" and "\<bar>s\<bar> < 2 ^ 52"
  shows "\<exists>q. round_to_double s w = Inr q \<and>
           \<bar>q - of_int s / of_int w\<bar> \<le> \<bar>of_int s\<bar> / of_int w / 2 ^ 53"
proof (cases "s = 0")
  case True
  then show ?thesis
    by (simp add: round_to_double_def)
next
  case False
  then have "1 \<le> \<bar>s\<bar>" by simp
  then have one: "(1::rat) \<le> \<bar>of_int s\<bar>"
    by (metis of_int_1 of_int_abs of_int_le_iff)
  have "(of_int w :: rat) \<le> of_int (2 ^ 1022)"
    using assms(2) by (simp only: of_int_le_iff)
  then have w: "(of_int w :: rat) \<le> 2 ^ 1022"
    by simp
  have "(of_int w :: rat) \<le> \<bar>of_int s\<bar> * 2 ^ 1022"
  proof -
    have "(1::rat) * 2 ^ 1022 \<le> \<bar>of_int s\<bar> * 2 ^ 1022"
      by (rule mult_right_mono [OF one]) simp
    then show ?thesis using w by linarith
  qed
  moreover have "\<bar>of_int s\<bar> < (of_int w :: rat) * 2 ^ 1023"
  proof -
    have "(of_int \<bar>s\<bar> :: rat) < of_int (2 ^ 52)"
      using assms(3) by (simp only: of_int_less_iff)
    then have "\<bar>of_int s :: rat\<bar> < 2 ^ 52"
      by simp
    moreover have "(2::rat) ^ 52 \<le> 1 * 2 ^ 1023"
      by simp
    moreover have "(1::rat) * 2 ^ 1023 \<le> of_int w * 2 ^ 1023"
      by (rule mult_right_mono) (use assms(1) in simp_all)
    ultimately show ?thesis by linarith
  qed
  ultimately show ?thesis
    using round_to_double_accurate [OF False assms(1)] by blast
qed

lemma round_to_double_order:
  assumes "0 < w" and "w \<le> 2 ^ 1022" and "\<bar>s\<bar> < 2 ^ 52" and "\<bar>t\<bar> < 2 ^ 52"
  shows "\<exists>q r. round_to_double s w = Inr q \<and> round_to_double t w = Inr r \<and>
           (r < q \<longleftrightarrow> t < s)"
proof -
  obtain q where q: "round_to_double s w = Inr q"
    and qe: "\<bar>q - of_int s / of_int w\<bar> \<le> \<bar>of_int s\<bar> / of_int w / 2 ^ 53"
    using round_to_double_small [OF assms(1,2,3)] by blast
  obtain r where r: "round_to_double t w = Inr r"
    and re: "\<bar>r - of_int t / of_int w\<bar> \<le> \<bar>of_int t\<bar> / of_int w / 2 ^ 53"
    using round_to_double_small [OF assms(1,2,4)] by blast
  have strict: "r' < q'"
    if "t' < s'" and "\<bar>s'\<bar> < 2 ^ 52" and "\<bar>t'\<bar> < 2 ^ 52"
      and "\<bar>q' - of_int s' / of_int w\<bar> \<le> \<bar>of_int s'\<bar> / of_int w / 2 ^ 53"
      and "\<bar>r' - of_int t' / of_int w\<bar> \<le> \<bar>of_int t'\<bar> / of_int w / 2 ^ 53"
    for s' t' :: int and q' r' :: rat
  proof -
    define W :: rat where "W = of_int w"
    define S :: rat where "S = of_int s'"
    define T :: rat where "T = of_int t'"
    have W: "0 < W" using assms(1) by (simp add: W_def)
    have "\<bar>s'\<bar> + \<bar>t'\<bar> + 1 \<le> 2 ^ 53 * (s' - t')"
      using that(1,2,3) by simp
    then have "(of_int (\<bar>s'\<bar> + \<bar>t'\<bar> + 1) :: rat) \<le> of_int (2 ^ 53 * (s' - t'))"
      by (simp only: of_int_le_iff)
    then have gap: "\<bar>S\<bar> + \<bar>T\<bar> + 1 \<le> 2 ^ 53 * (S - T)"
      by (simp add: S_def T_def)
    have "q' - r' \<ge> (S / W - \<bar>S\<bar> / W / 2 ^ 53) - (T / W + \<bar>T\<bar> / W / 2 ^ 53)"
      using that(4,5) unfolding W_def S_def T_def by linarith
    moreover have "(S / W - \<bar>S\<bar> / W / 2 ^ 53) - (T / W + \<bar>T\<bar> / W / 2 ^ 53) =
        (2 ^ 53 * (S - T) - (\<bar>S\<bar> + \<bar>T\<bar>)) / (W * 2 ^ 53)"
      using W by (simp add: field_simps)
    moreover have "0 < (2 ^ 53 * (S - T) - (\<bar>S\<bar> + \<bar>T\<bar>)) / (W * 2 ^ 53)"
      using W gap by (intro divide_pos_pos) simp_all
    ultimately show ?thesis by linarith
  qed
  have "r < q \<longleftrightarrow> t < s"
  proof (cases t s rule: linorder_cases)
    case less
    then show ?thesis using strict [OF less assms(3,4) qe re] by simp
  next
    case equal
    then show ?thesis using q r by simp
  next
    case greater
    then show ?thesis using strict [OF greater assms(4,3) re qe] by simp
  qed
  with q r show ?thesis by blast
qed

subsection \<open>Integers up to \<open>2 ^ 53\<close> are floats\<close>

lemma bit_length_le:
  assumes "n < 2 ^ k"
  shows "bit_length n \<le> k"
proof (cases "n = 0")
  case True
  then show ?thesis by (simp add: bit_length.simps)
next
  case False
  then have "(2::nat) ^ (bit_length n - 1) \<le> n"
    using bit_length_bounds [of n] by simp
  then have "(2::nat) ^ (bit_length n - 1) < 2 ^ k"
    using assms by linarith
  then have "bit_length n - 1 < k"
    by (simp only: power_strict_increasing_iff one_less_numeral_iff semiring_norm)
  then show ?thesis by linarith
qed

lemma floor_log2_1:
  assumes "0 < x"
  shows "floor_log2 x (Suc 0) = int (bit_length x) - 1"
proof -
  have b1: "bit_length (Suc 0) = Suc 0"
    by (simp add: bit_length.simps)
  have "0 < bit_length x"
    using assms by (rule bit_length_pos)
  moreover have "(2::nat) ^ (bit_length x - 1) \<le> x"
    using bit_length_bounds [OF assms] by blast
  ultimately show ?thesis
    by (simp add: floor_log2_def b1 Let_def nat_diff_distrib')
qed

lemma round_to_double_exact:
  assumes "\<bar>a\<bar> \<le> 2 ^ 53"
  shows "round_to_double a 1 = Inr (of_int a)"
proof (cases "a = 0")
  case True
  then show ?thesis by (simp add: round_to_double_def)
next
  case False
  define x where "x = nat \<bar>a\<bar>"
  define n where "n = bit_length x"
  have x: "0 < x" and x53: "x \<le> 2 ^ 53"
    using False assms by (simp_all add: x_def le_nat_iff nat_le_iff)
  have "x < 2 ^ 54"
    using x53 by simp
  then have n54: "n \<le> 54"
    unfolding n_def by (rule bit_length_le)
  have n1: "1 \<le> n"
    using bit_length_pos [OF x] by (simp add: n_def)
  have lo: "(2::nat) ^ (n - 1) \<le> x"
    using bit_length_bounds [OF x] by (simp add: n_def)
  have e: "floor_log2 x (Suc 0) = int n - 1"
    unfolding n_def by (rule floor_log2_1 [OF x])
  have p: "max (int n - 1) (- 1022) - 52 = int n - 53"
    using n1 by simp
  have "(of_nat x :: rat) \<le> of_nat (2 ^ 53)"
    using x53 by (simp only: of_nat_le_iff)
  then have small: "\<not> (2::rat) ^ 1024 \<le> of_nat x"
    by simp
  have r: "round_to_double a 1 = Inr (of_int (sgn a) * of_nat x)"
  proof -
    consider "n \<le> 52" | "n = 53" | "n = 54"
      using n54 by linarith
    then show ?thesis
    proof cases
      case 1
      then have "\<not> 0 \<le> int n - 53" by simp
      then show ?thesis
        using False small
        by (simp add: round_to_double_def Let_def x_def [symmetric] e p round_half_even_def)
    next
      case 2
      then show ?thesis
        using False small
        by (simp add: round_to_double_def Let_def x_def [symmetric] e p round_half_even_def)
    next
      case 3
      then have x2: "x = 2 ^ 53"
        using lo x53 by simp
      have "round_half_even x (2 ^ 1) = 2 ^ 52"
        unfolding x2 by (simp add: round_half_even_def)
      then show ?thesis
        using False small
        by (simp add: round_to_double_def Let_def x_def [symmetric] e p 3) (simp add: x2)
    qed
  qed
  moreover have "(of_nat x :: rat) = of_int \<bar>a\<bar>"
    by (simp add: x_def)
  moreover have "(of_int (sgn a) * of_int \<bar>a\<bar> :: rat) = of_int a"
    by (simp only: mult_sgn_abs flip: of_int_mult)
  ultimately show ?thesis by simp
qed

subsection \<open>Which integers convert to a float\<close>

text \<open>
  The largest float is \<open>2 ^ 1024 - 2 ^ 971\<close>. An integer converts to a float exactly
  when its magnitude is below \<open>2 ^ 1024 - 2 ^ 970\<close>, half a unit in the last place
  above the largest float: from there on rounding reaches \<open>2 ^ 1024\<close>.
\<close>

lemma float_of_int_exact: "\<bar>v\<bar> \<le> 2 ^ 53 \<Longrightarrow> float_of_int v = Inr (of_int v)"
  by (simp add: float_of_int_def round_to_double_exact)

lemma round_half_even_bounds:
  "x div y \<le> round_half_even x y \<and> round_half_even x y \<le> x div y + 1"
  by (simp add: round_half_even_def Let_def)

lemma round_half_even_down:
  assumes "0 < y" and "2 * x < (2 * n + 1) * y"
  shows "round_half_even x y \<le> n"
proof -
  define q where "q = x div y"
  define r where "r = x mod y"
  have x: "x = q * y + r"
    by (simp add: q_def r_def)
  have r: "r < y"
    using assms(1) by (simp add: r_def)
  have "q \<le> n"
  proof (rule ccontr)
    assume "\<not> q \<le> n"
    then have "n + 1 \<le> q" by simp
    then have "(n + 1) * y \<le> q * y"
      by (rule mult_le_mono1)
    then have "2 * ((n + 1) * y) \<le> 2 * x"
      using x by simp
    then show False
      using assms(2) by (simp add: algebra_simps)
  qed
  show ?thesis
  proof (cases "q = n")
    case True
    then have "2 * r < y"
      using assms(2) x by (simp add: algebra_simps)
    then show ?thesis
      using True by (simp add: round_half_even_def Let_def flip: q_def r_def)
  next
    case False
    then have "q + 1 \<le> n"
      using \<open>q \<le> n\<close> by simp
    then show ?thesis
      using round_half_even_bounds [of x y] by (simp add: q_def)
  qed
qed

lemma round_half_even_up:
  assumes "0 < y" and "(2 * n + 1) * y \<le> 2 * x" and "odd n"
  shows "n + 1 \<le> round_half_even x y"
proof -
  define q where "q = x div y"
  define r where "r = x mod y"
  have x: "x = q * y + r"
    by (simp add: q_def r_def)
  have r: "r < y"
    using assms(1) by (simp add: r_def)
  have "n \<le> q"
  proof (rule ccontr)
    assume "\<not> n \<le> q"
    then have "q + 1 \<le> n" by simp
    then have "(q + 1) * y \<le> n * y"
      by (rule mult_le_mono1)
    then have "2 * x < 2 * (n * y)"
      using x r by (simp add: algebra_simps)
    then show False
      using assms(2) by (simp add: algebra_simps)
  qed
  show ?thesis
  proof (cases "q = n")
    case True
    then have "y \<le> 2 * r"
      using assms(2) x by (simp add: algebra_simps)
    then show ?thesis
      using True assms(3) by (auto simp: round_half_even_def Let_def simp flip: q_def r_def)
  next
    case False
    then have "n + 1 \<le> q"
      using \<open>n \<le> q\<close> by simp
    then show ?thesis
      using round_half_even_bounds [of x y] by (simp add: q_def)
  qed
qed

lemma round_to_double_large_int:
  assumes "2 ^ 53 < \<bar>v\<bar>"
  defines "x \<equiv> nat \<bar>v\<bar>"
  defines "k \<equiv> bit_length x - 53"
  shows "0 < k"
    and "2 ^ 52 * 2 ^ k \<le> x" and "x < 2 ^ 53 * 2 ^ k"
    and "round_to_double v 1 = Inl OverflowError \<longleftrightarrow>
           2 ^ 1024 \<le> round_half_even x (2 ^ k) * 2 ^ k"
proof -
  have x: "0 < x" and big: "2 ^ 53 < x"
    using assms(1) by (simp_all add: x_def)
  have v0: "v \<noteq> 0"
    using assms(1) by auto
  define n where "n = bit_length x"
  have lo: "(2::nat) ^ (n - 1) \<le> x" and hi: "x < (2::nat) ^ n"
    using bit_length_bounds [OF x] by (simp_all add: n_def)
  have "(2::nat) ^ 53 < 2 ^ n"
    using big hi by linarith
  then have n: "53 < n"
    by (simp only: power_strict_increasing_iff one_less_numeral_iff semiring_norm)
  then show k: "0 < k"
    by (simp add: k_def n_def)
  have nk: "n = k + 53"
    using n by (simp add: k_def n_def)
  have "n - 1 = 52 + k"
    using nk by simp
  then show "2 ^ 52 * 2 ^ k \<le> x"
    using lo by (simp add: power_add)
  show "x < 2 ^ 53 * 2 ^ k"
    using hi by (simp add: nk power_add mult.commute)
  have e: "floor_log2 x (Suc 0) = int n - 1"
    unfolding n_def by (rule floor_log2_1 [OF x])
  have e': "floor_log2 (nat \<bar>v\<bar>) (nat 1) = int n - 1"
    using e by (simp add: x_def)
  have p: "max (int n - 1) (- 1022) - 52 = int k"
    using nk by simp
  have y: "nat 1 * 2 ^ k = (2::nat) ^ k"
    by simp
  have "round_to_double v 1 =
      (if (2::rat) ^ 1024 \<le> of_nat (round_half_even x (2 ^ k) * 2 ^ k) then Inl OverflowError
       else Inr (of_int (sgn v) * of_nat (round_half_even x (2 ^ k) * 2 ^ k)))"
    unfolding round_to_double_def Let_def
    by (simp only: v0 if_False e' p of_nat_0_le_iff if_True nat_int y x_def)
  moreover have "(2::rat) ^ 1024 \<le> of_nat (round_half_even x (2 ^ k) * 2 ^ k) \<longleftrightarrow>
      2 ^ 1024 \<le> round_half_even x (2 ^ k) * 2 ^ k"
  proof -
    have "(2::rat) ^ 1024 = of_nat (2 ^ 1024)"
      by simp
    then show ?thesis
      by (simp only: of_nat_le_iff)
  qed
  ultimately show "round_to_double v 1 = Inl OverflowError \<longleftrightarrow>
      2 ^ 1024 \<le> round_half_even x (2 ^ k) * 2 ^ k"
    by simp
qed

lemma float_of_int_overflow_iff:
  "float_of_int v = Inl OverflowError \<longleftrightarrow> 2 ^ 1024 - 2 ^ 970 \<le> \<bar>v\<bar>"
proof (cases "\<bar>v\<bar> \<le> 2 ^ 53")
  case True
  then have "float_of_int v = Inr (of_int v)"
    by (rule float_of_int_exact)
  moreover have "\<not> 2 ^ 1024 - 2 ^ 970 \<le> \<bar>v\<bar>"
    using True by simp
  ultimately show ?thesis by simp
next
  case False
  then have big: "2 ^ 53 < \<bar>v\<bar>" by simp
  define x where "x = nat \<bar>v\<bar>"
  define k where "k = bit_length x - 53"
  define m where "m = round_half_even x (2 ^ k)"
  have k: "0 < k" and lo: "2 ^ 52 * 2 ^ k \<le> x" and hi: "x < 2 ^ 53 * 2 ^ k"
    and ovf: "float_of_int v = Inl OverflowError \<longleftrightarrow> 2 ^ 1024 \<le> m * 2 ^ k"
    using round_to_double_large_int [OF big]
    unfolding x_def [symmetric] k_def [symmetric] m_def [symmetric] float_of_int_def
    by blast+
  have xv: "2 ^ 1024 - 2 ^ 970 \<le> \<bar>v\<bar> \<longleftrightarrow> 2 ^ 1024 - 2 ^ 970 \<le> x"
    by (simp add: x_def le_nat_iff)
  have "2 ^ 52 \<le> x div 2 ^ k"
    using lo by (simp add: less_eq_div_iff_mult_less_eq)
  moreover have "x div 2 ^ k < 2 ^ 53"
    using hi by (simp add: div_less_iff_less_mult)
  ultimately have m: "2 ^ 52 \<le> m" "m \<le> 2 ^ 53"
    using round_half_even_bounds [of x "2 ^ k"] by (simp_all add: m_def)
  consider "k < 971" | "k = 971" | "971 < k"
    by linarith
  then show ?thesis
  proof cases
    case 1
    then have "53 + k \<le> 1023" by simp
    then have "(2::nat) ^ (53 + k) \<le> 2 ^ 1023"
      by (intro power_increasing) simp_all
    then have p: "(2::nat) ^ 53 * 2 ^ k \<le> 2 ^ 1023"
      by (simp only: power_add)
    have lt: "(2::nat) ^ 1023 < 2 ^ 1024 - 2 ^ 970" "(2::nat) ^ 1023 < 2 ^ 1024"
      by simp_all
    have "m * 2 ^ k \<le> 2 ^ 53 * 2 ^ k"
      using m(2) by (rule mult_le_mono1)
    then have "m * 2 ^ k \<le> 2 ^ 1023"
      using p by (rule order_trans)
    then have "\<not> 2 ^ 1024 \<le> m * 2 ^ k"
      using lt(2) by linarith
    moreover have "x < 2 ^ 1023"
      using hi p by (rule less_le_trans)
    then have "\<not> 2 ^ 1024 - 2 ^ 970 \<le> x"
      using lt(1) by linarith
    ultimately show ?thesis
      by (simp only: ovf xv)
  next
    case 3
    then have "1024 \<le> 52 + k" by simp
    then have "(2::nat) ^ 1024 \<le> 2 ^ (52 + k)"
      by (intro power_increasing) simp_all
    then have p: "(2::nat) ^ 1024 \<le> 2 ^ 52 * 2 ^ k"
      by (simp only: power_add)
    have le: "(2::nat) ^ 1024 - 2 ^ 970 \<le> 2 ^ 1024"
      by simp
    have "2 ^ 52 * 2 ^ k \<le> m * 2 ^ k"
      using m(1) by (rule mult_le_mono1)
    then have "2 ^ 1024 \<le> m * 2 ^ k"
      using p by linarith
    moreover have "2 ^ 1024 \<le> x"
      using p lo by (rule order_trans)
    then have "2 ^ 1024 - 2 ^ 970 \<le> x"
      using le by linarith
    ultimately show ?thesis
      by (simp only: ovf xv)
  next
    case 2
    have ovf2: "2 ^ 1024 \<le> m * 2 ^ k \<longleftrightarrow> 2 ^ 53 \<le> m"
    proof -
      have "(2::nat) ^ 1024 = 2 ^ 53 * 2 ^ 971"
        by simp
      then show ?thesis
        unfolding 2 by (simp only: mult_le_cancel2) simp
    qed
    show ?thesis
    proof (cases "2 * x < (2 * (2 ^ 53 - 1) + 1) * 2 ^ 971")
      case True
      have "m \<le> 2 ^ 53 - 1"
        unfolding m_def 2 by (rule round_half_even_down [OF _ True]) simp
      then have "\<not> 2 ^ 53 \<le> m"
        by simp
      moreover have "\<not> 2 ^ 1024 - 2 ^ 970 \<le> x"
        using True by simp
      ultimately show ?thesis
        by (simp only: ovf xv ovf2)
    next
      case False
      then have ge: "(2 * (2 ^ 53 - 1) + 1) * 2 ^ 971 \<le> 2 * x"
        by simp
      have "(2 ^ 53 - 1) + 1 \<le> m"
        unfolding m_def 2 by (rule round_half_even_up [OF _ ge]) simp_all
      then have "2 ^ 53 \<le> m"
        by simp
      moreover have "2 ^ 1024 - 2 ^ 970 \<le> x"
        using ge by simp
      ultimately show ?thesis
        by (simp only: ovf xv ovf2)
    qed
  qed
qed

section \<open>Day 01: results\<close>

subsection \<open>Sums and single steps of the fold\<close>

lemma float_of_int_cases:
  "float_of_int v = Inl OverflowError \<or> (\<exists>q. float_of_int v = Inr q)"
  by (simp add: float_of_int_def round_to_double_def Let_def)

lemma float_of_int_0: "float_of_int 0 = Inr 0"
  by (simp add: float_of_int_def round_to_double_def)

lemma reduce_py_add_ints:
  "reduce py_add (map PyInt xs) (PyInt a) = Inr (PyInt (a + sum_list xs))"
  by (induction xs arbitrary: a) (simp_all add: add.assoc)

lemma py_sum_ints: "py_sum (map PyInt xs) = Inr (PyInt (sum_list xs))"
  by (simp add: py_sum_def reduce_py_add_ints)

lemma reduce_py_add_inf_ints:
  assumes "\<forall>x\<in>set xs. float_of_int x \<noteq> Inl OverflowError"
  shows "reduce py_add (map PyInt xs) PyInf = Inr PyInf"
  using assms
proof (induction xs)
  case Nil
  show ?case by simp
next
  case (Cons x xs)
  then obtain q where "float_of_int x = Inr q"
    using float_of_int_cases [of x] by auto
  then show ?case
    using Cons by simp
qed

lemma reduce_py_add_inf:
  assumes "\<forall>x\<in>set xs. float_of_int x \<noteq> Inl OverflowError"
  shows "reduce py_add (replicate k PyInf @ map PyInt xs) PyInf = Inr PyInf"
  by (induction k) (simp_all add: reduce_py_add_inf_ints [OF assms])

lemma py_sum_inf:
  assumes "0 < k" and "\<forall>x\<in>set xs. float_of_int x \<noteq> Inl OverflowError"
  shows "py_sum (replicate k PyInf @ map PyInt xs) = Inr PyInf"
proof -
  obtain j where k: "k = Suc j"
    using assms(1) by (cases k) auto
  show ?thesis
    using reduce_py_add_inf [OF assms(2), of j]
    by (simp add: py_sum_def k float_of_int_0)
qed

lemma py_truediv_inf:
  assumes "0 < w" and "float_of_int w \<noteq> Inl OverflowError"
  shows "py_truediv PyInf w = Inr PosInf"
proof -
  obtain q where "float_of_int w = Inr q"
    using float_of_int_cases [of w] assms(2) by auto
  then show ?thesis
    using assms(1) by simp
qed

lemma py_truediv_int:
  assumes "0 < w"
  shows "py_truediv (PyInt s) w =
     (case round_to_double s w of Inl e \<Rightarrow> Inl e | Inr q \<Rightarrow> Inr (Finite q))"
  using assms by simp

lemma float_gt_PosInf: "\<not> float_gt x PosInf"
  by (cases x) simp_all

lemma count_sentinel:
  assumes "0 < w" and "float_of_int w \<noteq> Inl OverflowError"
    and "\<forall>x\<in>set xs. float_of_int x \<noteq> Inl OverflowError"
    and "float_of_int m \<noteq> Inl OverflowError"
    and "2 \<le> k"
  shows "count w (n, replicate k PyInf @ map PyInt xs) m =
           Inr (n, replicate (k - 1) PyInf @ map PyInt (xs @ [m]))"
proof -
  obtain j where k: "k = Suc (Suc j)"
    using assms(5) by (cases k) (auto simp: numeral_2_eq_2 Suc_le_eq gr0_conv_Suc)
  have all: "\<forall>x\<in>set (xs @ [m]). float_of_int x \<noteq> Inl OverflowError"
    using assms(3,4) by simp
  have tl: "tl ((replicate k PyInf @ map PyInt xs) @ [PyInt m]) =
      replicate (Suc j) PyInf @ map PyInt (xs @ [m])"
    by (simp add: k)
  have bl: "butlast ((replicate k PyInf @ map PyInt xs) @ [PyInt m]) =
      replicate k PyInf @ map PyInt xs"
    by (simp only: butlast_snoc)
  have new: "py_sum (replicate (Suc j) PyInf @ map PyInt (xs @ [m])) = Inr PyInf"
    by (rule py_sum_inf [OF _ all]) simp
  have old: "py_sum (replicate k PyInf @ map PyInt xs) = Inr PyInf"
    by (rule py_sum_inf [OF _ assms(3)]) (simp add: k)
  show ?thesis
    unfolding count_def prod.case Let_def tl bl new old bind_def sum.case
      py_truediv_inf [OF assms(1,2)]
    by (simp add: k)
qed

lemma count_last_sentinel:
  assumes "0 < w" and "float_of_int w \<noteq> Inl OverflowError"
    and "\<forall>x\<in>set xs. float_of_int x \<noteq> Inl OverflowError"
    and "round_to_double (sum_list (xs @ [m])) w = Inr q"
  shows "count w (n, PyInf # map PyInt xs) m = Inr (n, map PyInt (xs @ [m]))"
proof -
  have tl: "tl ((PyInf # map PyInt xs) @ [PyInt m]) = map PyInt (xs @ [m])"
    by simp
  have bl: "butlast ((PyInf # map PyInt xs) @ [PyInt m]) = replicate 1 PyInf @ map PyInt xs"
    by (simp only: butlast_snoc) simp
  have old: "py_sum (replicate 1 PyInf @ map PyInt xs) = Inr PyInf"
    by (rule py_sum_inf [OF _ assms(3)]) simp
  show ?thesis
    unfolding count_def prod.case Let_def tl bl old bind_def sum.case py_sum_ints
      py_truediv_inf [OF assms(1,2)] py_truediv_int [OF assms(1)] assms(4)
    by (simp add: float_gt_PosInf)
qed

lemma count_ints:
  assumes "0 < w"
    and "round_to_double (sum_list (tl (xs @ [m]))) w = Inr q"
    and "round_to_double (sum_list xs) w = Inr r"
  shows "count w (n, map PyInt xs) m =
           Inr (if r < q then n + 1 else n, map PyInt (tl (xs @ [m])))"
proof -
  have tl: "tl (map PyInt xs @ [PyInt m]) = map PyInt (tl (xs @ [m]))"
    by (simp add: map_tl)
  have bl: "butlast (map PyInt xs @ [PyInt m]) = map PyInt xs"
    by (simp only: butlast_snoc)
  show ?thesis
    unfolding count_def prod.case Let_def tl bl bind_def sum.case py_sum_ints
      py_truediv_int [OF assms(1)] assms(2,3)
    by simp
qed

subsection \<open>The window after each measurement\<close>

lemma reduce_count_short:
  assumes "0 < w" and "float_of_int w \<noteq> Inl OverflowError"
    and "\<forall>x\<in>set xs. float_of_int x \<noteq> Inl OverflowError"
    and "\<forall>m\<in>set ms. float_of_int m \<noteq> Inl OverflowError"
    and "length ms < k"
  shows "reduce (count w) ms (n, replicate k PyInf @ map PyInt xs) =
           Inr (n, replicate (k - length ms) PyInf @ map PyInt (xs @ ms))"
  using assms(3,4,5)
proof (induction ms arbitrary: k xs)
  case Nil
  show ?case by simp
next
  case (Cons m ms)
  have k: "2 \<le> k" using Cons.prems(3) by simp
  have step: "count w (n, replicate k PyInf @ map PyInt xs) m =
      Inr (n, replicate (k - 1) PyInf @ map PyInt (xs @ [m]))"
    using Cons.prems(1,2) by (intro count_sentinel [OF assms(1,2) _ _ k]) simp_all
  have "reduce (count w) ms (n, replicate (k - 1) PyInf @ map PyInt (xs @ [m])) =
      Inr (n, replicate (k - 1 - length ms) PyInf @ map PyInt ((xs @ [m]) @ ms))"
    using Cons.prems by (intro Cons.IH) auto
  then show ?case
    by (simp add: step)
qed

lemma window_sum_append:
  assumes "i < length pre" and "w \<le> Suc i"
  shows "window_sum (pre @ ys) w i = window_sum pre w i"
  using assms by (simp add: window_sum_def)

lemma window_sum_last:
  assumes "w \<le> Suc (length pre)" and "0 < w"
  shows "window_sum (pre @ [m]) w (length pre) = sum_list (drop (Suc (length pre) - w) pre) + m"
  using assms by (simp add: window_sum_def)

lemma window_sum_prev:
  assumes "w \<le> length pre" and "0 < w"
  shows "window_sum pre w (length pre - 1) = sum_list (drop (length pre - w) pre)"
  using assms by (simp add: window_sum_def)

lemma spec_window_increases_snoc:
  assumes "0 < w"
  shows "spec_window_increases (pre @ [m]) w =
     spec_window_increases pre w +
       (if w \<le> length pre \<and>
           window_sum (pre @ [m]) w (length pre - 1) < window_sum (pre @ [m]) w (length pre)
        then 1 else 0)"
proof (cases "w \<le> length pre")
  case False
  then show ?thesis by (simp add: spec_window_increases_def)
next
  case True
  have "filter (\<lambda>i. window_sum (pre @ [m]) w (i - 1) < window_sum (pre @ [m]) w i)
          [w..<length pre] =
        filter (\<lambda>i. window_sum pre w (i - 1) < window_sum pre w i) [w..<length pre]"
  proof (intro filter_cong refl)
    fix i
    assume "i \<in> set [w..<length pre]"
    then have i: "i < length pre" "w \<le> Suc i" "i - 1 < length pre" "w \<le> Suc (i - 1)"
      using assms by auto
    show "(window_sum (pre @ [m]) w (i - 1) < window_sum (pre @ [m]) w i) =
        (window_sum pre w (i - 1) < window_sum pre w i)"
      by (simp only: window_sum_append [OF i(1,2)] window_sum_append [OF i(3,4)])
  qed
  then show ?thesis
    using True by (simp add: spec_window_increases_def)
qed

lemma reduce_snoc:
  "reduce f (xs @ [x]) acc = (case reduce f xs acc of Inl e \<Rightarrow> Inl e | Inr acc' \<Rightarrow> f acc' x)"
  by (simp add: reduce_append split: sum.splits)

lemma reduce_count_windows:
  fixes ws B :: int
  assumes ws: "0 < ws" "float_of_int ws \<noteq> Inl OverflowError"
    and ord: "\<And>s t. \<bar>s\<bar> \<le> B \<Longrightarrow> \<bar>t\<bar> \<le> B \<Longrightarrow>
      \<exists>q r. round_to_double s ws = Inr q \<and> round_to_double t ws = Inr r \<and> (r < q \<longleftrightarrow> t < s)"
    and ok: "\<forall>m\<in>set ms. float_of_int m \<noteq> Inl OverflowError"
    and sums: "\<And>i. nat ws \<le> Suc i \<Longrightarrow> i < length ms \<Longrightarrow> \<bar>window_sum ms (nat ws) i\<bar> \<le> B"
  shows "reduce (count ws) ms (0, replicate (nat ws) PyInf) =
           Inr (spec_window_increases ms (nat ws),
                drop (length ms) (replicate (nat ws) PyInf @ map PyInt ms))"
  using ok sums
proof (induction ms rule: rev_induct)
  case Nil
  show ?case by (simp add: spec_window_increases_def)
next
  case (snoc m pre)
  define w where "w = nat ws"
  define len where "len = length pre"
  have w: "0 < w" using ws(1) by (simp add: w_def)
  have ok_pre: "\<forall>x\<in>set pre. float_of_int x \<noteq> Inl OverflowError"
    and ok_m: "float_of_int m \<noteq> Inl OverflowError"
    using snoc.prems(1) by simp_all
  have bound: "\<bar>window_sum (pre @ [m]) w i\<bar> \<le> B" if "w \<le> Suc i" "i \<le> len" for i
    using snoc.prems(2) [of i] that by (simp add: w_def len_def)
  have "\<bar>window_sum pre (nat ws) i\<bar> \<le> B" if "nat ws \<le> Suc i" "i < length pre" for i
    using bound [of i] that window_sum_append [OF that(2,1), of "[m]"]
    by (simp add: w_def len_def)
  then have IH: "reduce (count ws) pre (0, replicate w PyInf) =
      Inr (spec_window_increases pre w, drop len (replicate w PyInf @ map PyInt pre))"
    using snoc.IH [OF ok_pre] by (simp add: w_def len_def)
  have goal: "count ws (spec_window_increases pre w, drop len (replicate w PyInf @ map PyInt pre)) m =
      Inr (spec_window_increases (pre @ [m]) w,
           drop (Suc len) (replicate w PyInf @ map PyInt (pre @ [m])))"
  proof -
    consider (sentinel) "Suc len < w" | (last_sentinel) "Suc len = w" | (ints) "w \<le> len"
      by linarith
    then show ?thesis
    proof cases
      case sentinel
      have "drop len (replicate w PyInf @ map PyInt pre) =
          replicate (w - len) PyInf @ map PyInt pre"
        using sentinel by simp
      moreover have "drop (Suc len) (replicate w PyInf @ map PyInt (pre @ [m])) =
          replicate (w - len - 1) PyInf @ map PyInt (pre @ [m])"
        using sentinel by simp
      moreover have "spec_window_increases (pre @ [m]) w = spec_window_increases pre w"
        using sentinel by (simp add: spec_window_increases_snoc [OF w] len_def)
      moreover have "count ws (spec_window_increases pre w, replicate (w - len) PyInf @ map PyInt pre) m =
          Inr (spec_window_increases pre w, replicate (w - len - 1) PyInf @ map PyInt (pre @ [m]))"
        using sentinel by (intro count_sentinel [OF ws ok_pre ok_m]) simp
      ultimately show ?thesis by simp
    next
      case last_sentinel
      have "drop len (replicate w PyInf @ map PyInt pre) =
          replicate (w - len) PyInf @ map PyInt pre"
        using last_sentinel by simp
      moreover have "w - len = Suc 0"
        using last_sentinel by simp
      ultimately have "drop len (replicate w PyInf @ map PyInt pre) = PyInf # map PyInt pre"
        by simp
      moreover have "drop (Suc len) (replicate w PyInf @ map PyInt (pre @ [m])) =
          map PyInt (pre @ [m])"
        using last_sentinel by simp
      moreover have "spec_window_increases (pre @ [m]) w = spec_window_increases pre w"
        using last_sentinel by (simp add: spec_window_increases_snoc [OF w] len_def)
      moreover have "\<exists>q. round_to_double (sum_list (pre @ [m])) ws = Inr q"
      proof -
        have "\<bar>window_sum (pre @ [m]) w len\<bar> \<le> B"
          using last_sentinel by (intro bound) simp_all
        moreover have "window_sum (pre @ [m]) w len = sum_list (pre @ [m])"
          using last_sentinel by (simp add: window_sum_def len_def)
        ultimately show ?thesis
          using ord [of "sum_list (pre @ [m])" "sum_list (pre @ [m])"] by auto
      qed
      ultimately show ?thesis
        using count_last_sentinel [OF ws ok_pre] by auto
    next
      case ints
      define xs where "xs = drop (len - w) pre"
      have lenxs: "length xs = w"
        using ints by (simp add: xs_def len_def)
      have win: "drop len (replicate w PyInf @ map PyInt pre) = map PyInt xs"
        using ints by (simp add: xs_def len_def drop_map)
      have "xs \<noteq> []"
        using lenxs w by auto
      then have "tl (xs @ [m]) = tl xs @ [m]"
        by simp
      moreover have "tl xs = drop (Suc (len - w)) pre"
        by (simp add: xs_def drop_Suc tl_drop)
      moreover have "Suc (len - w) = Suc len - w"
        using ints by simp
      ultimately have tlxs: "tl (xs @ [m]) = drop (Suc len - w) (pre @ [m])"
        using ints w by (simp add: len_def)
      have win': "drop (Suc len) (replicate w PyInf @ map PyInt (pre @ [m])) =
          map PyInt (tl (xs @ [m]))"
        using ints w by (simp add: tlxs len_def drop_map)
      have s: "window_sum (pre @ [m]) w len = sum_list (tl (xs @ [m]))"
        using ints w by (simp add: tlxs window_sum_def len_def)
      have "window_sum (pre @ [m]) w (len - 1) = window_sum pre w (len - 1)"
        using ints w by (intro window_sum_append) (simp_all add: len_def)
      then have t: "window_sum (pre @ [m]) w (len - 1) = sum_list xs"
        using ints w window_sum_prev [of w pre] by (simp add: xs_def len_def)
      have t': "window_sum (pre @ [m]) w (len - Suc 0) = sum_list xs"
        using t by simp
      have "\<bar>sum_list (tl (xs @ [m]))\<bar> \<le> B"
        using bound [of len] ints unfolding s by simp
      moreover have "\<bar>sum_list xs\<bar> \<le> B"
        using bound [of "len - 1"] ints w unfolding t by simp
      ultimately obtain q r where q: "round_to_double (sum_list (tl (xs @ [m]))) ws = Inr q"
        and r: "round_to_double (sum_list xs) ws = Inr r"
        and qr: "r < q \<longleftrightarrow> sum_list xs < sum_list (tl (xs @ [m]))"
        using ord by blast
      have "spec_window_increases (pre @ [m]) w = (if r < q then spec_window_increases pre w + 1
          else spec_window_increases pre w)"
        using ints by (simp add: spec_window_increases_snoc [OF w] s t' qr flip: len_def)
      then show ?thesis
        unfolding win win' using count_ints [OF ws(1) q r, of "spec_window_increases pre w"]
        by simp
    qed
  qed
  show ?case
    using goal by (simp add: reduce_snoc IH flip: w_def len_def)
qed

subsection \<open>From the fold to the count\<close>

lemma bit_length_eqI:
  assumes "2 ^ k \<le> n" and "n < 2 ^ Suc k"
  shows "bit_length n = Suc k"
proof -
  have n: "0 < n"
    using assms(1) by (metis less_le_trans zero_less_numeral zero_less_power)
  have lo: "(2::nat) ^ (bit_length n - 1) \<le> n" and hi: "n < (2::nat) ^ bit_length n"
    using bit_length_bounds [OF n] by blast+
  have "(2::nat) ^ (bit_length n - 1) < 2 ^ Suc k"
    using lo assms(2) by linarith
  then have "bit_length n - 1 < Suc k"
    by (simp only: power_strict_increasing_iff one_less_numeral_iff semiring_norm)
  moreover have "(2::nat) ^ k < 2 ^ bit_length n"
    using hi assms(1) by linarith
  then have "k < bit_length n"
    by (simp only: power_strict_increasing_iff one_less_numeral_iff semiring_norm)
  ultimately show ?thesis by linarith
qed

lemma sum_list_bound:
  fixes w C :: int
  assumes "\<forall>m\<in>set xs. \<bar>m\<bar> * w \<le> C" and "0 \<le> w"
  shows "\<bar>sum_list xs\<bar> * w \<le> int (length xs) * C"
  using assms(1)
proof (induction xs)
  case Nil
  show ?case by simp
next
  case (Cons x xs)
  have "\<bar>x + sum_list xs\<bar> * w \<le> (\<bar>x\<bar> + \<bar>sum_list xs\<bar>) * w"
    by (rule mult_right_mono [OF abs_triangle_ineq assms(2)])
  also have "\<dots> = \<bar>x\<bar> * w + \<bar>sum_list xs\<bar> * w"
    by (simp add: algebra_simps)
  also have "\<dots> \<le> C + int (length xs) * C"
    using Cons by (intro add_mono) simp_all
  finally show ?case
    by (simp add: algebra_simps)
qed

lemma window_sum_bound:
  fixes ws C :: int
  assumes "0 < ws" and "\<forall>m\<in>set ms. \<bar>m\<bar> * ws \<le> C" and "0 \<le> C"
  shows "\<bar>window_sum ms (nat ws) i\<bar> \<le> C"
proof -
  define xs where "xs = take (nat ws) (drop (Suc i - nat ws) ms)"
  have "set xs \<subseteq> set ms"
    unfolding xs_def by (meson set_take_subset set_drop_subset subset_trans)
  then have "\<forall>m\<in>set xs. \<bar>m\<bar> * ws \<le> C"
    using assms(2) by blast
  then have "\<bar>sum_list xs\<bar> * ws \<le> int (length xs) * C"
    using assms(1) by (intro sum_list_bound) simp_all
  also have "\<dots> \<le> ws * C"
    using assms(1,3) by (intro mult_right_mono) (simp_all add: xs_def)
  finally have "\<bar>sum_list xs\<bar> * ws \<le> C * ws"
    by (simp add: mult.commute)
  then have "\<bar>sum_list xs\<bar> \<le> C"
    using assms(1) by (simp only: mult_le_cancel_right)
  then show ?thesis
    by (simp add: window_sum_def xs_def)
qed

lemma increases_bounded:
  fixes C :: int
  assumes "0 < window_size" and "window_size < 2 ^ 52"
    and "\<forall>m\<in>set measurements. \<bar>m\<bar> * window_size \<le> C" and "0 \<le> C" and "C < 2 ^ 52"
  shows "increases measurements window_size =
           Inr (spec_window_increases measurements (nat window_size))"
proof -
  have ws: "float_of_int window_size \<noteq> Inl OverflowError"
    using assms(1,2) by (simp add: float_of_int_exact)
  have ok: "\<forall>m\<in>set measurements. float_of_int m \<noteq> Inl OverflowError"
  proof
    fix m assume "m \<in> set measurements"
    then have "\<bar>m\<bar> * window_size \<le> C"
      using assms(3) by blast
    moreover have "\<bar>m\<bar> * 1 \<le> \<bar>m\<bar> * window_size"
      using assms(1) by (intro mult_left_mono) simp_all
    ultimately have "\<bar>m\<bar> \<le> 2 ^ 53"
      using assms(5) by simp
    then show "float_of_int m \<noteq> Inl OverflowError"
      by (simp add: float_of_int_exact)
  qed
  have ord: "\<exists>q r. round_to_double s window_size = Inr q \<and>
      round_to_double t window_size = Inr r \<and> (r < q \<longleftrightarrow> t < s)"
    if "\<bar>s\<bar> \<le> C" "\<bar>t\<bar> \<le> C" for s t
    using that assms(1,2,5) by (intro round_to_double_order) simp_all
  have sums: "\<bar>window_sum measurements (nat window_size) i\<bar> \<le> C" for i
    using assms(1,3,4) by (intro window_sum_bound) simp_all
  show ?thesis
    using assms(1) reduce_count_windows [OF assms(1) ws ord ok sums]
    by (simp add: increases_def)
qed

lemma window_sum_1: "i < length ms \<Longrightarrow> window_sum ms (Suc 0) i = ms ! i"
  by (simp add: window_sum_def take_Suc_conv_app_nth)

lemma spec_window_increases_1: "spec_window_increases ms (Suc 0) = spec_pairwise_increases ms"
proof -
  have "filter (\<lambda>i. window_sum ms (Suc 0) (i - 1) < window_sum ms (Suc 0) i) [Suc 0..<length ms] =
      filter (\<lambda>i. ms ! (i - 1) < ms ! i) [Suc 0..<length ms]"
  proof (intro filter_cong refl)
    fix i
    assume "i \<in> set [Suc 0..<length ms]"
    then have "i < length ms" and "i - 1 < length ms"
      by auto
    then show "(window_sum ms (Suc 0) (i - 1) < window_sum ms (Suc 0) i) =
        (ms ! (i - 1) < ms ! i)"
      by (simp only: window_sum_1)
  qed
  then show ?thesis
    by (simp add: spec_window_increases_def spec_pairwise_increases_def)
qed

lemma increases_short:
  assumes "0 < window_size" and "length measurements < nat window_size"
    and "float_of_int window_size \<noteq> Inl OverflowError"
    and "\<forall>m\<in>set measurements. float_of_int m \<noteq> Inl OverflowError"
  shows "increases measurements window_size = Inr 0"
  using assms(1) reduce_count_short [OF assms(1,3) _ assms(4,2), of "[]" 0]
  by (simp add: increases_def)

subsection \<open>The window size check\<close>

lemma round_to_double_error: "round_to_double a b = Inl e \<Longrightarrow> e = OverflowError"
  by (auto simp: round_to_double_def Let_def split: if_splits)

lemma py_add_error: "py_add x y = Inl e \<Longrightarrow> e = OverflowError"
  by (cases x; cases y)
    (auto simp: float_of_int_def split: sum.splits dest: round_to_double_error)

lemma reduce_error: "reduce f xs acc = Inl e \<Longrightarrow> \<exists>st x. f st x = Inl e"
proof (induction xs arbitrary: acc)
  case Nil
  then show ?case by simp
next
  case (Cons x xs)
  then show ?case
    by (cases "f acc x") auto
qed

lemma py_sum_error: "py_sum xs = Inl e \<Longrightarrow> e = OverflowError"
  unfolding py_sum_def by (blast dest: reduce_error py_add_error)

lemma py_truediv_error: "0 < w \<Longrightarrow> py_truediv x w = Inl e \<Longrightarrow> e = OverflowError"
  by (cases x) (auto simp: float_of_int_def split: sum.splits dest: round_to_double_error)

lemma count_error:
  assumes "0 < w" and "count w st m = Inl e"
  shows "e = OverflowError"
proof -
  obtain n win where st: "st = (n, win)" by (cases st)
  show ?thesis
    using assms(2) py_sum_error py_truediv_error [OF assms(1)]
    unfolding st count_def bind_def Let_def prod.case
    by (auto split: sum.splits if_splits)
qed

lemma increases_error:
  assumes "0 < window_size" and "increases measurements window_size = Inl e"
  shows "e = OverflowError"
proof -
  have "reduce (count window_size) measurements (0, replicate (nat window_size) PyInf) = Inl e"
    using assms by (auto simp: increases_def split: sum.splits prod.splits)
  then obtain st m where "count window_size st m = Inl e"
    by (blast dest: reduce_error)
  then show ?thesis
    by (rule count_error [OF assms(1)])
qed

text \<open>
  Claim C3. A window size of zero or less makes \<^verbatim>\<open>increases\<close> raise the
  \<^verbatim>\<open>ValueError\<close> of its range check, whatever the measurements, and no count is
  produced; a positive window size never raises that error. (The message in the code
  begins with a capital letter: "Window size must be greater than zero".)
\<close>

theorem window_size_check:
  "(window_size \<le> 0 \<longrightarrow>
      increases measurements window_size =
        Inl (ValueError ''Window size must be greater than zero'')) \<and>
   (0 < window_size \<longrightarrow>
      increases measurements window_size \<noteq>
        Inl (ValueError ''Window size must be greater than zero''))"
proof (intro conjI impI)
  assume "window_size \<le> 0"
  then show "increases measurements window_size =
      Inl (ValueError ''Window size must be greater than zero'')"
    by (simp add: increases_def)
next
  assume "0 < window_size"
  then show "increases measurements window_size \<noteq>
      Inl (ValueError ''Window size must be greater than zero'')"
    using increases_error [of window_size measurements] by auto
qed

theorem window_size_check_witness:
  "increases example_report 0 = Inl (ValueError ''Window size must be greater than zero'') \<and>
   increases example_report (- 3) = Inl (ValueError ''Window size must be greater than zero'') \<and>
   increases example_report 3 \<noteq> Inl (ValueError ''Window size must be greater than zero'')"
  using window_size_check [of 0 example_report] window_size_check [of "- 3" example_report]
    window_size_check [of 3 example_report]
  by simp

subsection \<open>The example report\<close>

text \<open>
  Claim C5. On the example report of the puzzle text, \<^verbatim>\<open>increases\<close> returns 7 with
  window size 1 and 5 with window size 3.
\<close>

theorem increases_example:
  "increases example_report 1 = Inr 7 \<and> increases example_report 3 = Inr 5"
proof
  have "\<forall>m\<in>set example_report. \<bar>m\<bar> * 1 \<le> 1000"
    by (simp add: example_report_def)
  then have "increases example_report 1 = Inr (spec_window_increases example_report (nat 1))"
    by (rule increases_bounded [where C = 1000, rotated 2]) simp_all
  moreover have "spec_window_increases example_report (nat 1) = 7"
    by (simp add: spec_window_increases_def window_sum_def example_report_def)
  ultimately show "increases example_report 1 = Inr 7"
    by simp
next
  have "\<forall>m\<in>set example_report. \<bar>m\<bar> * 3 \<le> 1000"
    by (simp add: example_report_def)
  then have "increases example_report 3 = Inr (spec_window_increases example_report (nat 3))"
    by (rule increases_bounded [where C = 1000, rotated 2]) simp_all
  moreover have "spec_window_increases example_report (nat 3) = 5"
    by (simp add: spec_window_increases_def window_sum_def example_report_def)
  ultimately show "increases example_report 3 = Inr 5"
    by simp
qed

subsection \<open>Counting the increases of the window sums\<close>

text \<open>
  Claim C1, amended. For every window size from 1 to below \<open>2 ^ 52\<close> and every sequence
  of integer measurements \<open>m\<close> with \<open>\<bar>m\<bar> * window_size < 2 ^ 52\<close>, \<^verbatim>\<open>increases\<close> returns
  the number of positions at which the sum of the most recent \<open>window_size\<close>
  measurements is strictly greater than the sum of the window before it; equal sums do
  not count, and the positions without a full preceding window do not count.
\<close>

theorem increases_counts_window_sums:
  assumes "0 < window_size" and "window_size < 2 ^ 52"
    and "\<forall>m\<in>set measurements. \<bar>m\<bar> * window_size < 2 ^ 52"
  shows "increases measurements window_size =
           Inr (spec_window_increases measurements (nat window_size))"
proof -
  have "\<forall>m\<in>set measurements. \<bar>m\<bar> * window_size \<le> 2 ^ 52 - 1"
    using assms(3) by auto
  then show ?thesis
    by (rule increases_bounded [OF assms(1,2)]) simp_all
qed

theorem increases_counts_window_sums_witness:
  "increases [607, 618, 618, 617, 647] 2 =
     Inr (spec_window_increases [607, 618, 618, 617, 647] (nat 2)) \<and>
   spec_window_increases [607, 618, 618, 617, 647] (nat 2) = 2"
proof -
  have "\<forall>m\<in>set [607, 618, 618, 617, 647 :: int]. \<bar>m\<bar> * 2 < 2 ^ 52"
    by simp
  then have "increases [607, 618, 618, 617, 647] 2 =
      Inr (spec_window_increases [607, 618, 618, 617, 647] (nat 2))"
    by (intro increases_counts_window_sums) simp_all
  moreover have "spec_window_increases [607, 618, 618, 617, 647] (nat 2) = 2"
    by (simp add: spec_window_increases_def window_sum_def)
  ultimately show ?thesis
    by simp
qed

text \<open>
  Without the bound the claim fails. With window size 2 on \<open>[0, 2 ^ 54, 1]\<close> the window
  sums are \<open>2 ^ 54\<close> and then \<open>2 ^ 54 + 1\<close>, an increase; both averages round to the
  float \<open>2 ^ 53\<close>, and \<^verbatim>\<open>increases\<close> counts nothing.
\<close>

lemma round_2_54_half: "round_to_double 18014398509481984 2 = Inr 9007199254740992"
proof -
  have "bit_length (2 ^ 54) = Suc 54"
    by (rule bit_length_eqI) simp_all
  moreover have "bit_length 2 = 2"
    by (simp add: bit_length.simps)
  ultimately have "floor_log2 (2 ^ 54) 2 = 53"
    by (simp add: floor_log2_def)
  then have "floor_log2 18014398509481984 2 = 53"
    by simp
  then show ?thesis
    by (simp add: round_to_double_def Let_def round_half_even_def)
qed

lemma round_2_54_1_half: "round_to_double 18014398509481985 2 = Inr 9007199254740992"
proof -
  have "bit_length (2 ^ 54 + 1) = Suc 54"
    by (rule bit_length_eqI) simp_all
  moreover have "bit_length 2 = 2"
    by (simp add: bit_length.simps)
  ultimately have "floor_log2 (2 ^ 54 + 1) 2 = 53"
    by (simp add: floor_log2_def)
  then have "floor_log2 18014398509481985 2 = 53"
    by simp
  then show ?thesis
    by (simp add: round_to_double_def Let_def round_half_even_def)
qed

theorem increases_misses_large_sum_increase:
  "increases [0, 2 ^ 54, 1] 2 = Inr 0 \<and> spec_window_increases [0, 2 ^ 54, 1] 2 = 1"
proof
  have f2: "float_of_int 2 \<noteq> Inl OverflowError"
    by (simp add: float_of_int_exact)
  have f0: "float_of_int 0 \<noteq> Inl OverflowError"
    by (simp add: float_of_int_exact)
  have "count 2 (0, replicate 2 PyInf @ map PyInt []) 0 =
      Inr (0, replicate (2 - 1) PyInf @ map PyInt ([] @ [0]))"
    by (rule count_sentinel [OF _ f2 _ f0]) simp_all
  then have s1: "count 2 (0, [PyInf, PyInf]) 0 = Inr (0, [PyInf, PyInt 0])"
    by (simp add: numeral_2_eq_2)
  have "count 2 (0, PyInf # map PyInt [0]) 18014398509481984 =
      Inr (0, map PyInt ([0] @ [18014398509481984]))"
    by (rule count_last_sentinel [OF _ f2, where q = 9007199254740992])
      (simp_all add: round_2_54_half f0)
  then have s2: "count 2 (0, [PyInf, PyInt 0]) 18014398509481984 =
      Inr (0, [PyInt 0, PyInt 18014398509481984])"
    by simp
  have "count 2 (0, map PyInt [0, 18014398509481984]) 1 =
      Inr (if (9007199254740992 :: rat) < 9007199254740992 then 0 + 1 else 0,
           map PyInt (tl ([0, 18014398509481984] @ [1])))"
    by (rule count_ints) (simp_all add: round_2_54_half round_2_54_1_half)
  then have s3: "count 2 (0, [PyInt 0, PyInt 18014398509481984]) 1 =
      Inr (0, [PyInt 18014398509481984, PyInt 1])"
    by simp
  show "increases [0, 2 ^ 54, 1] 2 = Inr 0"
    by (simp add: increases_def s1 s2 s3 numeral_2_eq_2)
next
  show "spec_window_increases [0, 2 ^ 54, 1] 2 = 1"
    by (simp add: spec_window_increases_def window_sum_def)
qed

subsection \<open>Window size 1\<close>

text \<open>
  Claim C7, amended. For every sequence of integer measurements of magnitude at most
  \<open>2 ^ 53\<close>, \<^verbatim>\<open>increases\<close> with window size 1 returns the number of measurements that
  are strictly greater than their immediate predecessor.
\<close>

theorem increases_window_1:
  assumes "\<forall>m\<in>set measurements. \<bar>m\<bar> \<le> 2 ^ 53"
  shows "increases measurements 1 = Inr (spec_pairwise_increases measurements)"
proof -
  have ws: "float_of_int 1 \<noteq> Inl OverflowError"
    by (simp add: float_of_int_exact)
  have ok: "\<forall>m\<in>set measurements. float_of_int m \<noteq> Inl OverflowError"
    using assms by (simp add: float_of_int_exact)
  have ord: "\<exists>q r. round_to_double s 1 = Inr q \<and> round_to_double t 1 = Inr r \<and>
      (r < q \<longleftrightarrow> t < s)"
    if "\<bar>s\<bar> \<le> 2 ^ 53" "\<bar>t\<bar> \<le> 2 ^ 53" for s t
    using that by (simp add: round_to_double_exact)
  have sums: "\<bar>window_sum measurements (nat 1) i\<bar> \<le> 2 ^ 53" if "i < length measurements" for i
    using that assms by (simp add: window_sum_1)
  show ?thesis
    using reduce_count_windows [OF _ ws ord ok sums]
    by (simp add: increases_def spec_window_increases_1)
qed

theorem increases_window_1_witness:
  "increases [2 ^ 53 - 1, 2 ^ 53, - (2 ^ 53), 5] 1 = Inr 2"
proof -
  have "\<forall>m\<in>set [2 ^ 53 - 1, 2 ^ 53, - (2 ^ 53), 5 :: int]. \<bar>m\<bar> \<le> 2 ^ 53"
    by simp
  then have "increases [2 ^ 53 - 1, 2 ^ 53, - (2 ^ 53), 5] 1 =
      Inr (spec_pairwise_increases [2 ^ 53 - 1, 2 ^ 53, - (2 ^ 53), 5])"
    by (rule increases_window_1)
  moreover have "spec_pairwise_increases [2 ^ 53 - 1, 2 ^ 53, - (2 ^ 53), 5] = 2"
    by (simp add: spec_pairwise_increases_def)
  ultimately show ?thesis
    by simp
qed

text \<open>
  Beyond \<open>2 ^ 53\<close> the claim fails: \<open>2 ^ 53 + 1\<close> is greater than \<open>2 ^ 53\<close>, but as a
  float it is \<open>2 ^ 53\<close> again, and \<^verbatim>\<open>increases\<close> counts nothing.
\<close>

lemma round_2_53_1: "round_to_double 9007199254740993 1 = Inr 9007199254740992"
proof -
  have "bit_length (2 ^ 53 + 1) = Suc 53"
    by (rule bit_length_eqI) simp_all
  then have "floor_log2 (2 ^ 53 + 1) (Suc 0) = 53"
    by (simp add: floor_log2_1)
  then have "floor_log2 9007199254740993 (Suc 0) = 53"
    by simp
  then show ?thesis
    by (simp add: round_to_double_def Let_def round_half_even_def)
qed

lemma round_2_53: "round_to_double 9007199254740992 1 = Inr 9007199254740992"
  using round_to_double_exact [of "2 ^ 53"] by simp

theorem increases_window_1_misses_increase:
  "increases [2 ^ 53, 2 ^ 53 + 1] 1 = Inr 0 \<and>
   spec_pairwise_increases [2 ^ 53, 2 ^ 53 + 1] = 1"
proof
  have f1: "float_of_int 1 \<noteq> Inl OverflowError"
    by (simp add: float_of_int_exact)
  have "count 1 (0, PyInf # map PyInt []) 9007199254740992 =
      Inr (0, map PyInt ([] @ [9007199254740992]))"
    by (rule count_last_sentinel [OF _ f1, where q = 9007199254740992])
      (simp_all add: round_2_53)
  then have s1: "count 1 (0, [PyInf]) 9007199254740992 = Inr (0, [PyInt 9007199254740992])"
    by simp
  have "count 1 (0, map PyInt [9007199254740992]) 9007199254740993 =
      Inr (if (9007199254740992 :: rat) < 9007199254740992 then 0 + 1 else 0,
           map PyInt (tl ([9007199254740992] @ [9007199254740993])))"
    by (rule count_ints) (simp_all add: round_2_53 round_2_53_1)
  then have s2: "count 1 (0, [PyInt 9007199254740992]) 9007199254740993 =
      Inr (0, [PyInt 9007199254740993])"
    by simp
  show "increases [2 ^ 53, 2 ^ 53 + 1] 1 = Inr 0"
    by (simp add: increases_def s1 s2)
next
  show "spec_pairwise_increases [2 ^ 53, 2 ^ 53 + 1] = 1"
    by (simp add: spec_pairwise_increases_def)
qed

subsection \<open>Sequences shorter than the window\<close>

text \<open>
  Claim C8, amended. For every positive window size and every sequence of measurements
  strictly shorter than it, \<^verbatim>\<open>increases\<close> returns 0, provided the window size and
  the magnitude of each measurement are below \<open>2 ^ 1024 - 2 ^ 970\<close>, that is, can
  be converted to a float: every comparison has the sentinel \<^verbatim>\<open>inf\<close> in the old
  window.
\<close>

theorem increases_short_sequence:
  assumes "0 < window_size" and "window_size < 2 ^ 1024 - 2 ^ 970"
    and "length measurements < nat window_size"
    and "\<forall>m\<in>set measurements. \<bar>m\<bar> < 2 ^ 1024 - 2 ^ 970"
  shows "increases measurements window_size = Inr 0"
proof -
  have "\<bar>window_size\<bar> < 2 ^ 1024 - 2 ^ 970"
    using assms(1,2) by linarith
  then have "float_of_int window_size \<noteq> Inl OverflowError"
    by (simp only: float_of_int_overflow_iff not_le)
  moreover have "\<forall>m\<in>set measurements. float_of_int m \<noteq> Inl OverflowError"
    using assms(4) by (simp only: float_of_int_overflow_iff not_le)
  ultimately show ?thesis
    using assms(1,3) by (intro increases_short)
qed

theorem increases_short_sequence_witness:
  "length [199, 2 ^ 1024 - 2 ^ 970 - 1 :: int] < nat 3 \<and>
   increases [199, 2 ^ 1024 - 2 ^ 970 - 1] 3 = Inr 0"
proof -
  have "\<forall>m\<in>set [199, 2 ^ 1024 - 2 ^ 970 - 1 :: int]. \<bar>m\<bar> < 2 ^ 1024 - 2 ^ 970"
    by simp
  then have "increases [199, 2 ^ 1024 - 2 ^ 970 - 1] 3 = Inr 0"
    by (intro increases_short_sequence) simp_all
  then show ?thesis
    by simp
qed

text \<open>
  A measurement too large for a float breaks the claim: adding it to the sentinel raises
  \<^verbatim>\<open>OverflowError\<close>, and no count is returned.
\<close>

lemma float_2_1024: "float_of_int (2 ^ 1024) = Inl OverflowError"
  by (simp only: float_of_int_overflow_iff) simp

theorem increases_short_sequence_overflow:
  "length [2 ^ 1024 :: int] < nat 2 \<and> increases [2 ^ 1024] 2 = Inl OverflowError"
  using float_2_1024
  by (simp add: increases_def count_def py_sum_def bind_def numeral_2_eq_2 float_of_int_0)

end
